theory Spec2Isabelle
  imports Main "HOL-Library.AList" "HOL-Library.Multiset"
begin

section \<open>The anti-banner service of \<^verbatim>\<open>lib/filter/antibanner.js\<close>\<close>

text \<open>
  The service is one closure over a handful of module-level variables; every function of
  it runs to completion on a single thread and hands work to storage, to the engine and
  to timers through callbacks. The embedding keeps the variables in one \<open>state\<close> record,
  writes every function as a state transformer, and keeps each callback that is still
  owed as a \<open>pending_op\<close>; a callback runs when the scheduler (\<open>step\<close>) completes its
  operation. Calls that leave the service (storage, engine, notifier, callbacks of the
  caller) are appended to \<open>trace\<close>. \<^verbatim>\<open>log.*\<close> calls are left out.
\<close>

subsection \<open>JavaScript values used by the service\<close>

datatype error = TypeError | CompileFailure

text \<open>A callback argument: a function (opaque, told apart by a number) or anything that
  is not a function.\<close>

datatype callback = Fn nat | NotFn

text \<open>A filter identifier is a number; the \<^verbatim>\<open>for ... in\<close> loops hand the same identifier
  on as a property name, a string (line 402 turns it back \<^verbatim>\<open>// To number\<close>). \<open>Key n\<close> is
  the property name of the number \<open>n\<close>; \<^verbatim>\<open>===\<close> tells the two apart.\<close>

datatype js_id = Num nat | Key nat

fun slot :: "js_id \<Rightarrow> nat" where
  "slot (Num n) = n"
| "slot (Key n) = n"

definition newline :: char where
  "newline = CHR 0x0A"

text \<open>\<^verbatim>\<open>Array.prototype.join('\n')\<close> and \<^verbatim>\<open>String.prototype.split('\n')\<close>.\<close>

fun join_newline :: "string list \<Rightarrow> string" where
  "join_newline [] = []"
| "join_newline [x] = x"
| "join_newline (x # y # ys) = x @ newline # join_newline (y # ys)"

fun split_newline :: "string \<Rightarrow> string list" where
  "split_newline [] = [[]]"
| "split_newline (c # cs) =
     (if c = newline then [] # split_newline cs
      else (case split_newline cs of [] \<Rightarrow> [[c]] | l # ls \<Rightarrow> (c # l) # ls))"

text \<open>An object whose keys are filter identifiers is an association list with distinct
  keys, in the order in which the keys were added (\<open>AList.update\<close> keeps the place of a
  key that is there and puts a new one last). \<open>obj_keys\<close> are its own property names in
  the order \<^verbatim>\<open>for ... in\<close> and \<^verbatim>\<open>Object.keys\<close> give them: the keys that are array
  indices (the integers below \<open>2^32 - 1\<close>) ascending, then the other keys in the order in
  which they were added.\<close>

definition is_array_index :: "nat \<Rightarrow> bool" where
  "is_array_index k = (int k < 4294967295)"

definition obj_keys :: "(nat \<times> 'v) list \<Rightarrow> nat list" where
  "obj_keys m =
     sort (filter is_array_index (map fst m)) @ filter (\<lambda>k. \<not> is_array_index k) (map fst m)"

subsection \<open>Events and the subscription registry\<close>

datatype event_type =
    ADD_RULES
  | REMOVE_RULE
  | UPDATE_FILTER_RULES
  | FILTER_ENABLE_DISABLE
  | FILTER_GROUP_ENABLE_DISABLE
  | UPDATE_USER_FILTER_RULES
  | REQUEST_FILTER_UPDATED
  | APPLICATION_INITIALIZED

text \<open>An entry of \<^verbatim>\<open>filterEventsHistory\<close>: \<^verbatim>\<open>{ event, filter, rules }\<close> or
  \<^verbatim>\<open>{ event, group }\<close>. A filter or group object is kept as its identifier; \<open>None\<close> is
  \<^verbatim>\<open>undefined\<close>. \<^verbatim>\<open>rules\<close> is the array object the notification was made with, not a
  copy of it: the entry holds the address of the array, and what the array holds is
  found in the \<open>arrays\<close> of the state.\<close>

record filter_event =
  event :: event_type
  filter_obj :: "nat option"
  group_obj :: "nat option"
  rules :: "nat option"

record subscription_filter =
  filterId :: nat
  groupId :: nat
  enabled :: bool
  version :: string

record subscription_group =
  group_id :: nat
  group_enabled :: bool

definition UPDATE_REQUEST_FILTER_EVENTS :: "event_type list" where
  "UPDATE_REQUEST_FILTER_EVENTS =
     [UPDATE_FILTER_RULES, FILTER_ENABLE_DISABLE, FILTER_GROUP_ENABLE_DISABLE,
      UPDATE_USER_FILTER_RULES]"

definition isUpdateRequestFilterEvent :: "filter_event \<Rightarrow> bool" where
  "isUpdateRequestFilterEvent el = (event el \<in> set UPDATE_REQUEST_FILTER_EVENTS)"

definition SAVE_FILTER_RULES_TO_STORAGE_EVENTS :: "event_type list" where
  "SAVE_FILTER_RULES_TO_STORAGE_EVENTS = [UPDATE_FILTER_RULES, ADD_RULES, REMOVE_RULE]"

definition isSaveRulesToStorageEvent :: "filter_event \<Rightarrow> bool" where
  "isSaveRulesToStorageEvent el = (event el \<in> set SAVE_FILTER_RULES_TO_STORAGE_EVENTS)"

subsection \<open>Collaborators that are not part of the file\<close>

text \<open>Constants and functions of other modules the service calls, taken as parameters:
  \<^verbatim>\<open>utils.filters.USER_FILTER_ID\<close>, \<^verbatim>\<open>TSUrlFilter.RuleConverter.convertRules\<close>,
  \<^verbatim>\<open>subscriptions.isTrustedFilter\<close>, and the number of rules the engine reports for the
  lists it was started with.\<close>

datatype StringRuleList = StringRuleList nat string bool bool

record externals =
  USER_FILTER_ID :: nat
  convertRules :: "string \<Rightarrow> string"
  isTrustedFilter :: "nat \<Rightarrow> bool"
  engineRulesCount :: "StringRuleList list \<Rightarrow> nat"

text \<open>Modelled from the spec: the \<^verbatim>\<open>RequestFilter\<close> class (\<^verbatim>\<open>./request-filter\<close>) and the
  engine (\<^verbatim>\<open>./engine\<close>) are missing from the sources. The spec's Engine Handle is the
  compiled engine together with its \<open>ruleCount\<close>, replaced as a whole and never changed
  in place, and a handle that was never compiled is empty. So a request filter is an
  object identity with a rule count: \<^verbatim>\<open>new RequestFilter()\<close> has count 0, and the filter
  published after \<^verbatim>\<open>engine.startEngine(lists)\<close> has the count the engine reports for
  \<open>lists\<close>.\<close>

record request_filter =
  rf_id :: nat
  getRulesCount :: nat

text \<open>Modelled from the spec: \<^verbatim>\<open>utils.collections.removeAll\<close> (\<^verbatim>\<open>../utils/common\<close>) is
  missing from the sources; the spec says that remove deletes all exact-text matches.
  The rule is \<^verbatim>\<open>eventRules[0]\<close>, which is \<^verbatim>\<open>undefined\<close> (\<open>None\<close>) for an empty array and
  then matches no line. \<open>removeAll_coll\<close> gives what the array holds afterwards: line 623
  drops the value of the call, so the lines are removed from the array itself.\<close>

definition removeAll_coll :: "string list \<Rightarrow> string option \<Rightarrow> string list" where
  "removeAll_coll xs actionRule =
     (case actionRule of None \<Rightarrow> xs | Some r \<Rightarrow> filter (\<lambda>x. x \<noteq> r) xs)"

subsection \<open>State\<close>

text \<open>What the service tells the outside, in order.\<close>

datatype effect =
    Called nat
  | Uncaught error
  | Notify event_type "nat option"
  | GetRunInfo callback callback
  | StorageRead nat
  | StorageWrite nat "string list"
  | ConvertRules string
  | StartEngine "StringRuleList list"
  | CheckAntiBannerFiltersUpdate bool

text \<open>Callbacks still owed. \<open>LoadRead r f\<close>: rebuild \<open>r\<close> reads filter \<open>f\<close>
  (\<^verbatim>\<open>loadFilterRulesFromStorage\<close>). \<open>AwaitStartEngine r i lists\<close>: rebuild \<open>r\<close> awaits
  \<^verbatim>\<open>engine.startEngine(lists)\<close>, its \<^verbatim>\<open>newRequestFilter\<close> being object \<open>i\<close>.
  \<open>SaveRead b k events\<close> and \<open>SaveWrite b k converted\<close>: the read and the write of
  \<^verbatim>\<open>processSaveFilterRulesToStorageEvents\<close> for the filter \<open>k\<close> of batch \<open>b\<close>.\<close>

datatype pending_op =
    LoadRead nat nat
  | AwaitStartEngine nat nat "StringRuleList list"
  | SaveRead nat js_id "filter_event list"
  | SaveWrite nat js_id "string list"

text \<open>The closure of one \<^verbatim>\<open>createRequestFilter\<close> call: its \<^verbatim>\<open>callback\<close>, its
  \<^verbatim>\<open>rulesFilterMap\<close>, how many of its \<^verbatim>\<open>promises\<close> are unresolved, and whether
  \<^verbatim>\<open>Promise.all(promises).then(loadAllFilterRulesDone)\<close> has been reached.\<close>

record rebuild =
  rb_callback :: callback
  rulesFilterMap :: "(nat \<times> string list) list"
  promises :: nat
  awaited :: bool

record state =
  requestFilter :: request_filter
  requestFilterInitTime :: nat
  applicationRunning :: bool
  applicationInitialized :: bool
  reloadedRules :: bool
  filterEventsHistory :: "filter_event list"
  onFilterChangeTimeout :: "nat option"
  filters :: "subscription_filter list"
  groups :: "subscription_group list"
  rulesStorage :: "nat \<Rightarrow> string list option"
  arrays :: "nat \<Rightarrow> string list"
  clock :: nat
  rebuilds :: "nat \<Rightarrow> rebuild option"
  batches :: "nat \<Rightarrow> js_id list option"
  pending :: "pending_op list"
  fresh :: nat
  trace :: "effect list"

definition emit :: "effect \<Rightarrow> state \<Rightarrow> state" where
  "emit e s = s\<lparr>trace := trace s @ [e]\<rparr>"

definition enqueue :: "pending_op \<Rightarrow> state \<Rightarrow> state" where
  "enqueue p s = s\<lparr>pending := pending s @ [p]\<rparr>"

definition call :: "callback \<Rightarrow> state \<Rightarrow> state" where
  "call cb s = (case cb of Fn n \<Rightarrow> emit (Called n) s | NotFn \<Rightarrow> emit (Uncaught TypeError) s)"

definition notifyListeners :: "event_type \<Rightarrow> nat option \<Rightarrow> state \<Rightarrow> state" where
  "notifyListeners ev payload s = emit (Notify ev payload) s"

definition new_RequestFilter :: "state \<Rightarrow> request_filter \<times> state" where
  "new_RequestFilter s = (\<lparr>rf_id = fresh s, getRulesCount = 0\<rparr>, s\<lparr>fresh := Suc (fresh s)\<rparr>)"

definition getRequestFilter :: "state \<Rightarrow> request_filter" where
  "getRequestFilter s = requestFilter s"

definition getRequestFilterInfo :: "state \<Rightarrow> nat" where
  "getRequestFilterInfo s = getRulesCount (requestFilter s)"

definition getGroup :: "state \<Rightarrow> nat \<Rightarrow> subscription_group option" where
  "getGroup s gid = find (\<lambda>g. group_id g = gid) (groups s)"

subsection \<open>Rebuilding the request filter\<close>

text \<open>\<^verbatim>\<open>reloadAntiBannerFilters()\<close> with \<^verbatim>\<open>resetFiltersVersion()\<close>: every filter's version
  is reset and \<^verbatim>\<open>filtersUpdate.checkAntiBannerFiltersUpdate(true, ...)\<close> is called.\<close>

definition resetFiltersVersion :: "state \<Rightarrow> state" where
  "resetFiltersVersion s = s\<lparr>filters := map (\<lambda>f. f\<lparr>version := ''0.0.0.0''\<rparr>) (filters s)\<rparr>"

definition reloadAntiBannerFilters :: "state \<Rightarrow> state" where
  "reloadAntiBannerFilters s = emit (CheckAntiBannerFiltersUpdate True) (resetFiltersVersion s)"

definition isEmptyRulesFilterMap :: "externals \<Rightarrow> (nat \<times> string list) list \<Rightarrow> bool" where
  "isEmptyRulesFilterMap ext m =
     (let enabledFilterIds = obj_keys m in
      if length enabledFilterIds = 0 then True
      else if length enabledFilterIds = 1 \<and> enabledFilterIds ! 0 = USER_FILTER_ID ext
              \<and> (case map_of m (USER_FILTER_ID ext) of None \<Rightarrow> True | Some userRules \<Rightarrow> length userRules = 0)
      then True
      else False)"

text \<open>STEP 3, \<^verbatim>\<open>requestFilterInitialized\<close>: runs when \<^verbatim>\<open>engine.startEngine(lists)\<close> has
  resolved for rebuild \<open>r\<close>.\<close>

definition requestFilterInitialized ::
  "externals \<Rightarrow> nat \<Rightarrow> nat \<Rightarrow> StringRuleList list \<Rightarrow> state \<Rightarrow> state" where
  "requestFilterInitialized ext r i lists' s =
     (case rebuilds s r of
        None \<Rightarrow> s
      | Some t \<Rightarrow>
          let newRequestFilter = \<lparr>rf_id = i, getRulesCount = engineRulesCount ext lists'\<rparr>;
              s1 = s\<lparr>requestFilter := newRequestFilter, rebuilds := (rebuilds s)(r := None)\<rparr>;
              s2 = (case rb_callback t of Fn n \<Rightarrow> call (Fn n) s1 | NotFn \<Rightarrow> s1);
              s3 = notifyListeners REQUEST_FILTER_UPDATED (Some (getRequestFilterInfo s2)) s2
          in if isEmptyRulesFilterMap ext (rulesFilterMap t) then s3
             else if getRulesCount newRequestFilter = 0 \<and> \<not> reloadedRules s3
               then (reloadAntiBannerFilters s3)\<lparr>reloadedRules := True\<rparr>
             else if getRulesCount newRequestFilter > 0 \<and> reloadedRules s3
               then s3\<lparr>reloadedRules := False\<rparr>
             else s3)"

text \<open>\<^verbatim>\<open>startTSUrlfilterEngine\<close> up to its \<^verbatim>\<open>await\<close>: the \<^verbatim>\<open>for ... in\<close> loop pushes one
  \<^verbatim>\<open>StringRuleList\<close> per key of \<^verbatim>\<open>rulesFilterMap\<close> (\<open>ruleLists\<close>), then
  \<^verbatim>\<open>engine.startEngine(lists)\<close> is called.\<close>

definition ruleLists :: "externals \<Rightarrow> (nat \<times> string list) list \<Rightarrow> StringRuleList list" where
  "ruleLists ext m =
     map (\<lambda>filterId.
            StringRuleList filterId
              (join_newline (case map_of m filterId of None \<Rightarrow> [] | Some rulesTexts \<Rightarrow> rulesTexts))
              False (\<not> isTrustedFilter ext filterId))
       (obj_keys m)"

definition startTSUrlfilterEngine ::
  "externals \<Rightarrow> nat \<Rightarrow> nat \<Rightarrow> (nat \<times> string list) list \<Rightarrow> state \<Rightarrow> state" where
  "startTSUrlfilterEngine ext r i m s =
     (let lists' = ruleLists ext m
      in enqueue (AwaitStartEngine r i lists') (emit (StartEngine lists') s))"

text \<open>STEP 2, \<^verbatim>\<open>loadAllFilterRulesDone\<close> and \<^verbatim>\<open>onFiltersLoadedFromStorage\<close> up to the
  \<^verbatim>\<open>await\<close>.\<close>

definition onFiltersLoadedFromStorage :: "externals \<Rightarrow> nat \<Rightarrow> state \<Rightarrow> state" where
  "onFiltersLoadedFromStorage ext r s =
     (case rebuilds s r of
        None \<Rightarrow> s
      | Some t \<Rightarrow>
          let (newRequestFilter, s1) = new_RequestFilter s;
              s2 = (if requestFilterInitTime s1 = 0
                    then notifyListeners APPLICATION_INITIALIZED None
                           (s1\<lparr>requestFilterInitTime := clock s1\<rparr>)
                    else s1)
          in startTSUrlfilterEngine ext r (rf_id newRequestFilter) (rulesFilterMap t) s2)"

text \<open>\<^verbatim>\<open>loadFilterRulesFromStorage\<close>: the promise is pushed and \<^verbatim>\<open>rulesStorage.read\<close> is
  called; its callback, when the read completes with \<open>rulesText\<close>, fills the map and
  resolves the promise, and the last promise of an awaited \<^verbatim>\<open>Promise.all\<close> runs STEP 2.\<close>

definition loadFilterRulesFromStorage :: "nat \<Rightarrow> nat \<Rightarrow> state \<Rightarrow> state" where
  "loadFilterRulesFromStorage r filter_id s =
     (case rebuilds s r of
        None \<Rightarrow> s
      | Some t \<Rightarrow>
          enqueue (LoadRead r filter_id)
            (emit (StorageRead filter_id)
               (s\<lparr>rebuilds := (rebuilds s)(r \<mapsto> t\<lparr>promises := Suc (promises t)\<rparr>)\<rparr>)))"

definition loadFilterRulesFromStorage_callback ::
  "externals \<Rightarrow> nat \<Rightarrow> nat \<Rightarrow> string list option \<Rightarrow> state \<Rightarrow> state" where
  "loadFilterRulesFromStorage_callback ext r filter_id rulesText s =
     (case rebuilds s r of
        None \<Rightarrow> s
      | Some t \<Rightarrow>
          let m = (case rulesText of
                     None \<Rightarrow> rulesFilterMap t
                   | Some text \<Rightarrow> AList.update filter_id text (rulesFilterMap t));
              s1 = s\<lparr>rebuilds := (rebuilds s)(r \<mapsto> t\<lparr>rulesFilterMap := m, promises := promises t - 1\<rparr>)\<rparr>
          in if promises t = 1 \<and> awaited t then onFiltersLoadedFromStorage ext r s1 else s1)"

text \<open>STEP 1, the loop of \<^verbatim>\<open>loadFilterRules\<close>. \<^verbatim>\<open>filter.enabled && group.enabled\<close> reads
  \<^verbatim>\<open>group.enabled\<close> only for an enabled filter; an enabled filter whose group is not
  found throws there, with the reads issued so far under way.\<close>

fun loadFilterRules_loop :: "nat \<Rightarrow> subscription_filter list \<Rightarrow> state \<Rightarrow> error option \<times> state" where
  "loadFilterRules_loop r [] s = (None, s)"
| "loadFilterRules_loop r (f # fs) s =
     (if \<not> enabled f then loadFilterRules_loop r fs s
      else (case getGroup s (groupId f) of
              None \<Rightarrow> (Some TypeError, s)
            | Some g \<Rightarrow>
                if group_enabled g
                then loadFilterRules_loop r fs (loadFilterRulesFromStorage r (filterId f) s)
                else loadFilterRules_loop r fs s))"

definition await_all :: "nat \<Rightarrow> state \<Rightarrow> state" where
  "await_all r s =
     (case rebuilds s r of
        None \<Rightarrow> s
      | Some t \<Rightarrow> s\<lparr>rebuilds := (rebuilds s)(r \<mapsto> t\<lparr>awaited := True\<rparr>)\<rparr>)"

definition loadFilterRules :: "externals \<Rightarrow> nat \<Rightarrow> state \<Rightarrow> state" where
  "loadFilterRules ext r s =
     (case loadFilterRules_loop r (filters s) s of
        (Some err, s1) \<Rightarrow> emit (Uncaught err) s1
      | (None, s1) \<Rightarrow> await_all r (loadFilterRulesFromStorage r (USER_FILTER_ID ext) s1))"

definition createRequestFilter :: "externals \<Rightarrow> callback \<Rightarrow> state \<Rightarrow> state" where
  "createRequestFilter ext callback s =
     (if \<not> applicationRunning s
      then (case callback of Fn n \<Rightarrow> call (Fn n) s | NotFn \<Rightarrow> s)
      else let r = fresh s;
               s1 = s\<lparr>fresh := Suc r,
                      rebuilds := (rebuilds s)(r \<mapsto>
                        \<lparr>rb_callback = callback, rulesFilterMap = [], promises = 0, awaited = False\<rparr>)\<rparr>
           in loadFilterRules ext r s1)"

subsection \<open>Lifecycle\<close>

text \<open>\<^verbatim>\<open>initialize(options, callback)\<close> calls \<^verbatim>\<open>applicationUpdateService.getRunInfo\<close> with
  a continuation and returns. The continuation (lines 96-152) runs once the update
  service and \<^verbatim>\<open>subscriptions.init()\<close> have answered and is not followed here. Of what
  it does to the variables of the service, the scheduler below offers each part at
  any time: the listeners of \<^verbatim>\<open>addFiltersChangeEventListener\<close> are there from the start
  (\<open>Notification\<close>), \<^verbatim>\<open>createRequestFilter\<close> may be called (\<open>Rebuild\<close>) and the registry
  may change (\<open>RegistryChanged\<close>, as the loading of the stored versions and states
  does). \<open>options\<close> is kept as its \<^verbatim>\<open>onInstall\<close> member.\<close>

definition initialize :: "callback \<Rightarrow> callback \<Rightarrow> state \<Rightarrow> state" where
  "initialize options callback s = emit (GetRunInfo options callback) s"

definition start :: "externals \<Rightarrow> callback \<Rightarrow> callback \<Rightarrow> state \<Rightarrow> state" where
  "start ext options callback s =
     (if applicationRunning s then call callback s
      else let s1 = s\<lparr>applicationRunning := True\<rparr> in
           if \<not> applicationInitialized s1
           then (initialize options callback s1)\<lparr>applicationInitialized := True\<rparr>
           else createRequestFilter ext callback s1)"

definition stop :: "state \<Rightarrow> state" where
  "stop s =
     (let s1 = s\<lparr>applicationRunning := False\<rparr>;
          (fresh_filter, s2) = new_RequestFilter s1;
          s3 = s2\<lparr>requestFilter := fresh_filter\<rparr>
      in notifyListeners REQUEST_FILTER_UPDATED (Some (getRequestFilterInfo s3)) s3)"

subsection \<open>Saving filter rules\<close>

text \<open>The variable \<^verbatim>\<open>loadedRulesText\<close> of the read callback of
  \<^verbatim>\<open>processSaveFilterRulesToStorageEvents\<close> holds an array of its own (\<open>Own\<close>: the one
  the store handed over, the \<^verbatim>\<open>[]\<close> of line 609 or the result of \<^verbatim>\<open>concat\<close>, which no
  event holds) or, after \<^verbatim>\<open>loadedRulesText = eventRules\<close> (line 627), the array object
  of an event (\<open>Shared\<close>, its address).\<close>

datatype rules_text = Own "string list" | Shared nat

fun lines_of :: "(nat \<Rightarrow> string list) \<Rightarrow> rules_text \<Rightarrow> string list" where
  "lines_of arrs (Own l) = l"
| "lines_of arrs (Shared a) = arrs a"

text \<open>The loop of the read callback, over the arrays as they are when it runs; it gives
  back the arrays as it leaves them, also when it throws. \<^verbatim>\<open>concat\<close> makes a new array;
  \<^verbatim>\<open>removeAll\<close> removes from the array \<^verbatim>\<open>loadedRulesText\<close> is at that moment, so from
  the array of an earlier replace event when the variable is that array.
  A missing \<^verbatim>\<open>rules\<close> (\<open>None\<close>) makes \<^verbatim>\<open>eventRules.length\<close> or \<^verbatim>\<open>eventRules[0]\<close> throw in
  each of the three cases; other events fall through the \<^verbatim>\<open>switch\<close>.\<close>

fun applyEventsLoop ::
  "(nat \<Rightarrow> string list) \<Rightarrow> rules_text option \<Rightarrow> filter_event list \<Rightarrow>
   (error + rules_text option) \<times> (nat \<Rightarrow> string list)" where
  "applyEventsLoop arrs loadedRulesText [] = (Inr loadedRulesText, arrs)"
| "applyEventsLoop arrs loadedRulesText (e # es) =
     (let loaded = (case loadedRulesText of None \<Rightarrow> Own [] | Some l \<Rightarrow> l) in
      case event e of
        ADD_RULES \<Rightarrow>
          (case rules e of
             None \<Rightarrow> (Inl TypeError, arrs)
           | Some eventRules \<Rightarrow>
               applyEventsLoop arrs (Some (Own (lines_of arrs loaded @ arrs eventRules))) es)
      | REMOVE_RULE \<Rightarrow>
          (case rules e of
             None \<Rightarrow> (Inl TypeError, arrs)
           | Some eventRules \<Rightarrow>
               (let actionRule = (case arrs eventRules of [] \<Rightarrow> None | rule # _ \<Rightarrow> Some rule) in
                case loaded of
                  Own l \<Rightarrow> applyEventsLoop arrs (Some (Own (removeAll_coll l actionRule))) es
                | Shared a \<Rightarrow>
                    applyEventsLoop (arrs(a := removeAll_coll (arrs a) actionRule))
                      (Some (Shared a)) es))
      | UPDATE_FILTER_RULES \<Rightarrow>
          (case rules e of
             None \<Rightarrow> (Inl TypeError, arrs)
           | Some eventRules \<Rightarrow> applyEventsLoop arrs (Some (Shared eventRules)) es)
      | _ \<Rightarrow> applyEventsLoop arrs (Some loaded) es)"

text \<open>\<^verbatim>\<open>processSaveFilterRulesToStorageEvents(filterId, events)\<close> calls
  \<^verbatim>\<open>rulesStorage.read\<close> and returns its \<^verbatim>\<open>dfd\<close>, here the pair of the batch and the key.\<close>

definition processSaveFilterRulesToStorageEvents ::
  "nat \<Rightarrow> js_id \<Rightarrow> filter_event list \<Rightarrow> state \<Rightarrow> state" where
  "processSaveFilterRulesToStorageEvents b k events s =
     enqueue (SaveRead b k events) (emit (StorageRead (slot k)) s)"

text \<open>The read callback: the loop, one conversion, one \<^verbatim>\<open>rulesStorage.write\<close>.
  After a loop over no event an \<^verbatim>\<open>undefined\<close> text is still \<^verbatim>\<open>undefined\<close> and
  \<^verbatim>\<open>loadedRulesText.length\<close> throws. What the loop removed from the arrays of events
  stays removed.\<close>

definition saveRead_callback ::
  "externals \<Rightarrow> nat \<Rightarrow> js_id \<Rightarrow> filter_event list \<Rightarrow> string list option \<Rightarrow> state \<Rightarrow> state" where
  "saveRead_callback ext b k events loadedRulesText s =
     (case applyEventsLoop (arrays s) (map_option Own loadedRulesText) events of
        (Inl err, arrs) \<Rightarrow> emit (Uncaught err) (s\<lparr>arrays := arrs\<rparr>)
      | (Inr None, arrs) \<Rightarrow> emit (Uncaught TypeError) (s\<lparr>arrays := arrs\<rparr>)
      | (Inr (Some final), arrs) \<Rightarrow>
          let joined = join_newline (lines_of arrs final);
              converted = split_newline (convertRules ext joined)
          in enqueue (SaveWrite b k converted)
               (emit (StorageWrite (slot k) converted)
                  (emit (ConvertRules joined) (s\<lparr>arrays := arrs\<rparr>))))"

text \<open>\<^verbatim>\<open>dfd.resolve()\<close>: when the batch waits in
  \<^verbatim>\<open>utils.Promise.all(dfds).then(createRequestFilter)\<close> and this was its last unresolved
  \<^verbatim>\<open>dfd\<close>, \<^verbatim>\<open>createRequestFilter\<close> runs, with an argument that is not a function.\<close>

definition dfd_resolve :: "externals \<Rightarrow> nat \<Rightarrow> js_id \<Rightarrow> state \<Rightarrow> state" where
  "dfd_resolve ext b k s =
     (case batches s b of
        None \<Rightarrow> s
      | Some dfds \<Rightarrow>
          (let rest = remove1 k dfds in
           if rest = [] then createRequestFilter ext NotFn (s\<lparr>batches := (batches s)(b := None)\<rparr>)
           else s\<lparr>batches := (batches s)(b \<mapsto> rest)\<rparr>))"

text \<open>The write callback, run when the write has completed (the store then holds
  \<open>converted\<close>).\<close>

definition saveWrite_callback :: "externals \<Rightarrow> nat \<Rightarrow> js_id \<Rightarrow> state \<Rightarrow> state" where
  "saveWrite_callback ext b k s =
     (let s1 = dfd_resolve ext b k s in
      if k = Num (USER_FILTER_ID ext)
      then notifyListeners UPDATE_USER_FILTER_RULES (Some (getRequestFilterInfo s1)) s1
      else s1)"

subsection \<open>The filters change listener\<close>

definition processFilterEvent ::
  "event_type \<Rightarrow> nat option \<Rightarrow> nat option \<Rightarrow> state \<Rightarrow> state" where
  "processFilterEvent ev flt rls s =
     s\<lparr>filterEventsHistory :=
          filterEventsHistory s @ [\<lparr>event = ev, filter_obj = flt, group_obj = None, rules = rls\<rparr>],
        onFilterChangeTimeout := Some (fresh s),
        fresh := Suc (fresh s)\<rparr>"

definition processGroupEvent :: "event_type \<Rightarrow> nat option \<Rightarrow> state \<Rightarrow> state" where
  "processGroupEvent ev grp s =
     s\<lparr>filterEventsHistory :=
          filterEventsHistory s @ [\<lparr>event = ev, filter_obj = None, group_obj = grp, rules = None\<rparr>],
        onFilterChangeTimeout := Some (fresh s),
        fresh := Suc (fresh s)\<rparr>"

text \<open>The two listeners of \<^verbatim>\<open>addFiltersChangeEventListener\<close>; both see every
  notification, the second one reading the first argument as the group. \<open>rls\<close> is the
  array the notification was made with.\<close>

definition listeners ::
  "event_type \<Rightarrow> nat option \<Rightarrow> nat option \<Rightarrow> state \<Rightarrow> state" where
  "listeners ev arg rls s =
     (let s1 = (if ev \<in> set [ADD_RULES, REMOVE_RULE, UPDATE_FILTER_RULES, FILTER_ENABLE_DISABLE,
                             UPDATE_USER_FILTER_RULES]
                then processFilterEvent ev arg rls s else s)
      in if ev = FILTER_GROUP_ENABLE_DISABLE then processGroupEvent ev arg s1 else s1)"

text \<open>\<^verbatim>\<open>// Split by filterId\<close>: events without a filter are skipped.\<close>

fun eventsByFilter_loop ::
  "filter_event list \<Rightarrow> (nat \<times> filter_event list) list \<Rightarrow> (nat \<times> filter_event list) list" where
  "eventsByFilter_loop [] eventsByFilter = eventsByFilter"
| "eventsByFilter_loop (filterEvent # es) eventsByFilter =
     (case filter_obj filterEvent of
        None \<Rightarrow> eventsByFilter_loop es eventsByFilter
      | Some k \<Rightarrow>
          eventsByFilter_loop es
            (AList.update k
               ((case map_of eventsByFilter k of None \<Rightarrow> [] | Some l \<Rightarrow> l) @ [filterEvent])
               eventsByFilter))"

text \<open>The keys whose events need saving, in the order of the second loop.\<close>

definition dirtyFilters :: "(nat \<times> filter_event list) list \<Rightarrow> nat list" where
  "dirtyFilters eventsByFilter =
     filter (\<lambda>k. case map_of eventsByFilter k of
                   None \<Rightarrow> False
                 | Some l \<Rightarrow> list_ex isSaveRulesToStorageEvent l)
       (obj_keys eventsByFilter)"

definition processEventsHistory :: "externals \<Rightarrow> state \<Rightarrow> state" where
  "processEventsHistory ext s =
     (let filterEvents = filterEventsHistory s;
          b = fresh s;
          s1 = s\<lparr>filterEventsHistory := [], onFilterChangeTimeout := None, fresh := Suc b\<rparr>;
          needCreateRequestFilter = list_ex isUpdateRequestFilterEvent filterEvents;
          eventsByFilter = eventsByFilter_loop filterEvents [];
          dfds = dirtyFilters eventsByFilter;
          s2 = fold (\<lambda>k. processSaveFilterRulesToStorageEvents b (Key k)
                           (case map_of eventsByFilter k of None \<Rightarrow> [] | Some l \<Rightarrow> l))
                 dfds s1
      in if needCreateRequestFilter
         then (if dfds = [] then createRequestFilter ext NotFn s2
               else s2\<lparr>batches := (batches s2)(b \<mapsto> map Key dfds)\<rparr>)
         else notifyListeners REQUEST_FILTER_UPDATED (Some (getRequestFilterInfo s2)) s2)"

subsection \<open>The scheduler\<close>

text \<open>What can happen next: a call of the public interface, a rebuild request
  (\<^verbatim>\<open>createRequestFilter\<close>, the spec's \<open>rebuild()\<close>), a notification reaching the
  listeners, the debounce timer firing, a pending operation completing or failing, the
  clock moving, a caller of the notifier making an array (or changing one it has made),
  the subscription registry changing (nothing of the file owns it).\<close>

datatype action =
    Start callback callback
  | Stop
  | Rebuild callback
  | Notification event_type "nat option" "nat option"
  | TimerFired
  | Complete pending_op
  | Fail pending_op
  | Tick nat
  | CallerArray nat "string list"
  | RegistryChanged "subscription_filter list" "subscription_group list"

text \<open>A read completes with what the store holds then; a write completes by storing its
  lines. The array a read hands over is the store's answer to this call and no array
  of an event.\<close>

definition complete :: "externals \<Rightarrow> pending_op \<Rightarrow> state \<Rightarrow> state" where
  "complete ext p s =
     (case p of
        LoadRead r filter_id \<Rightarrow>
          loadFilterRulesFromStorage_callback ext r filter_id (rulesStorage s filter_id) s
      | AwaitStartEngine r i lists' \<Rightarrow> requestFilterInitialized ext r i lists' s
      | SaveRead b k events \<Rightarrow> saveRead_callback ext b k events (rulesStorage s (slot k)) s
      | SaveWrite b k converted \<Rightarrow>
          saveWrite_callback ext b k (s\<lparr>rulesStorage := (rulesStorage s)(slot k \<mapsto> converted)\<rparr>))"

text \<open>Modelled from the spec: the storage module (\<^verbatim>\<open>../storage\<close>) is missing from the
  sources. The spec's Rule Store answers a read with the lines of the filter or with
  nothing (\<open>read(filterId) -> sequence of text lines | empty\<close>), and each call
  completes or fails as a whole. The file gives \<^verbatim>\<open>rulesStorage.read\<close> one continuation,
  a callback of one parameter (lines 456 and 606), and \<^verbatim>\<open>rulesStorage.write\<close> a
  callback of none (line 637), with no error argument, no rejection and no \<^verbatim>\<open>try\<close>
  around them: a read that fails is taken to call back without a value, and a write
  that fails to call back with the store as it was. A store that never calls back is
  a schedule in which the operation stays pending. A failed \<^verbatim>\<open>engine.startEngine\<close>
  rejects the \<^verbatim>\<open>await\<close> of line 410, which nothing catches: the rest of the rebuild
  never runs.\<close>

definition fail :: "externals \<Rightarrow> pending_op \<Rightarrow> state \<Rightarrow> state" where
  "fail ext p s =
     (case p of
        LoadRead r filter_id \<Rightarrow> loadFilterRulesFromStorage_callback ext r filter_id None s
      | AwaitStartEngine r i lists' \<Rightarrow>
          emit (Uncaught CompileFailure) (s\<lparr>rebuilds := (rebuilds s)(r := None)\<rparr>)
      | SaveRead b k events \<Rightarrow> saveRead_callback ext b k events None s
      | SaveWrite b k converted \<Rightarrow> saveWrite_callback ext b k s)"

fun step :: "externals \<Rightarrow> action \<Rightarrow> state \<Rightarrow> state" where
  "step ext (Start options callback) s = start ext options callback s"
| "step ext Stop s = stop s"
| "step ext (Rebuild callback) s = createRequestFilter ext callback s"
| "step ext (Notification ev arg rls) s = listeners ev arg rls s"
| "step ext TimerFired s =
     (if onFilterChangeTimeout s = None then s else processEventsHistory ext s)"
| "step ext (Complete p) s =
     (if p \<in> set (pending s) then complete ext p (s\<lparr>pending := remove1 p (pending s)\<rparr>) else s)"
| "step ext (Fail p) s =
     (if p \<in> set (pending s) then fail ext p (s\<lparr>pending := remove1 p (pending s)\<rparr>) else s)"
| "step ext (Tick t) s = s\<lparr>clock := t\<rparr>"
| "step ext (CallerArray a ls) s = s\<lparr>arrays := (arrays s)(a := ls)\<rparr>"
| "step ext (RegistryChanged fs gs) s = s\<lparr>filters := fs, groups := gs\<rparr>"

definition run :: "externals \<Rightarrow> action list \<Rightarrow> state \<Rightarrow> state" where
  "run ext acts s = fold (step ext) acts s"

text \<open>The service as the module leaves it: \<^verbatim>\<open>requestFilter = new RequestFilter()\<close>, no
  flag set, nothing recorded, no array made yet, over a given registry and store.\<close>

definition init_state ::
  "subscription_filter list \<Rightarrow> subscription_group list \<Rightarrow> (nat \<Rightarrow> string list option) \<Rightarrow> state" where
  "init_state fs gs store =
     \<lparr>requestFilter = \<lparr>rf_id = 0, getRulesCount = 0\<rparr>,
      requestFilterInitTime = 0,
      applicationRunning = False,
      applicationInitialized = False,
      reloadedRules = False,
      filterEventsHistory = [],
      onFilterChangeTimeout = None,
      filters = fs,
      groups = gs,
      rulesStorage = store,
      arrays = (\<lambda>_. []),
      clock = 1,
      rebuilds = Map.empty,
      batches = Map.empty,
      pending = [],
      fresh = 1,
      trace = []\<rparr>"

section \<open>Notions used to state the properties\<close>

subsection \<open>The specification's reading of batch persistence\<close>

text \<open>What the specification says one event does to a filter's stored lines: add appends
  the event's rules, remove deletes every line that is exactly its rule (the first rule
  of the event), replace overwrites the whole list; other events leave the lines alone.
  The rules of an event are what its array holds (\<open>arrs\<close>, the arrays as they are when
  the batch is saved).\<close>

definition event_payload :: "(nat \<Rightarrow> string list) \<Rightarrow> filter_event \<Rightarrow> string list" where
  "event_payload arrs e = (case rules e of None \<Rightarrow> [] | Some a \<Rightarrow> arrs a)"

definition spec_apply_event ::
  "(nat \<Rightarrow> string list) \<Rightarrow> string list \<Rightarrow> filter_event \<Rightarrow> string list" where
  "spec_apply_event arrs content e =
     (case event e of
        ADD_RULES \<Rightarrow> content @ event_payload arrs e
      | REMOVE_RULE \<Rightarrow> filter (\<lambda>line. [line] \<noteq> take 1 (event_payload arrs e)) content
      | UPDATE_FILTER_RULES \<Rightarrow> event_payload arrs e
      | _ \<Rightarrow> content)"

text \<open>The events applied one after the other in arrival order to what the store held
  (nothing stored counts as no line), normalised once at the end.\<close>

definition spec_persisted ::
  "externals \<Rightarrow> (nat \<Rightarrow> string list) \<Rightarrow> string list option \<Rightarrow> filter_event list \<Rightarrow> string list" where
  "spec_persisted ext arrs stored events =
     split_newline (convertRules ext (join_newline
       (foldl (spec_apply_event arrs) (case stored of None \<Rightarrow> [] | Some l \<Rightarrow> l) events)))"

text \<open>An add, remove or replace event carries its rules.\<close>

definition has_payload :: "filter_event \<Rightarrow> bool" where
  "has_payload e = (isSaveRulesToStorageEvent e \<longrightarrow> rules e \<noteq> None)"

text \<open>No array of a replace event is the array of a later event of the list.\<close>

fun unshared :: "filter_event list \<Rightarrow> bool" where
  "unshared [] = True"
| "unshared (e # es) =
     ((event e = UPDATE_FILTER_RULES \<longrightarrow> (\<forall>e' \<in> set es. rules e' \<noteq> rules e)) \<and> unshared es)"

subsection \<open>Reading the trace and the pending operations\<close>

fun is_StartEngine :: "effect \<Rightarrow> bool" where
  "is_StartEngine (StartEngine l) = True"
| "is_StartEngine _ = False"

fun is_GetRunInfo :: "effect \<Rightarrow> bool" where
  "is_GetRunInfo (GetRunInfo opts cb) = True"
| "is_GetRunInfo _ = False"

fun is_check :: "effect \<Rightarrow> bool" where
  "is_check (CheckAntiBannerFiltersUpdate force) = True"
| "is_check _ = False"

text \<open>How often the engine was started, \<^verbatim>\<open>initialize\<close> was entered and a forced update
  check was asked for; how many engine starts are awaited at the moment.\<close>

definition engine_starts :: "state \<Rightarrow> nat" where
  "engine_starts s = length (filter is_StartEngine (trace s))"

definition initializations :: "state \<Rightarrow> nat" where
  "initializations s = length (filter is_GetRunInfo (trace s))"

definition update_checks :: "state \<Rightarrow> nat" where
  "update_checks s = length (filter is_check (trace s))"

definition awaited_starts :: "state \<Rightarrow> nat" where
  "awaited_starts s = length (filter (\<lambda>p. case p of AwaitStartEngine r i l \<Rightarrow> True | _ \<Rightarrow> False) (pending s))"

fun rebuild_op :: "pending_op \<Rightarrow> bool" where
  "rebuild_op (LoadRead r f) = True"
| "rebuild_op (AwaitStartEngine r i l) = True"
| "rebuild_op _ = False"

fun reads_of :: "nat \<Rightarrow> pending_op \<Rightarrow> bool" where
  "reads_of r (LoadRead r' f) = (r' = r)"
| "reads_of r _ = False"

fun awaits_of :: "nat \<Rightarrow> pending_op \<Rightarrow> bool" where
  "awaits_of r (AwaitStartEngine r' i l) = (r' = r)"
| "awaits_of r _ = False"

fun list_id :: "StringRuleList \<Rightarrow> nat" where
  "list_id (StringRuleList i text c j) = i"

fun list_text :: "StringRuleList \<Rightarrow> string" where
  "list_text (StringRuleList i text c j) = text"

text \<open>What \<^verbatim>\<open>if (callback && typeof callback === 'function') callback()\<close> adds to the
  trace, and what the first initialisation of a request filter adds.\<close>

definition callback_call :: "callback \<Rightarrow> effect list" where
  "callback_call cb = (case cb of Fn n \<Rightarrow> [Called n] | NotFn \<Rightarrow> [])"

definition init_notice :: "state \<Rightarrow> effect list" where
  "init_notice s = (if requestFilterInitTime s = 0 then [Notify APPLICATION_INITIALIZED None] else [])"

subsection \<open>The registry as a rebuild reads it\<close>

text \<open>A filter takes part when \<^verbatim>\<open>filter.enabled && group.enabled\<close> holds; the registry
  is sound for a rebuild when every enabled filter has its group. \<open>loaded_filters\<close> are
  the identifiers a rebuild is expected to read, the user filter last.\<close>

definition participates :: "state \<Rightarrow> subscription_filter \<Rightarrow> bool" where
  "participates s f =
     (enabled f \<and> (case getGroup s (groupId f) of None \<Rightarrow> False | Some g \<Rightarrow> group_enabled g))"

definition groups_known :: "state \<Rightarrow> bool" where
  "groups_known s = list_all (\<lambda>f. enabled f \<longrightarrow> getGroup s (groupId f) \<noteq> None) (filters s)"

definition loaded_filters :: "externals \<Rightarrow> state \<Rightarrow> nat list" where
  "loaded_filters ext s = map filterId (filter (participates s) (filters s)) @ [USER_FILTER_ID ext]"

text \<open>The reads the loop of \<^verbatim>\<open>loadFilterRules\<close> issues before it ends or throws, and
  what it throws.\<close>

fun issued :: "state \<Rightarrow> subscription_filter list \<Rightarrow> nat list" where
  "issued s [] = []"
| "issued s (f # fs) =
     (if participates s f then filterId f # issued s fs
      else if enabled f \<and> getGroup s (groupId f) = None then []
      else issued s fs)"

fun thrown :: "state \<Rightarrow> subscription_filter list \<Rightarrow> error option" where
  "thrown s [] = None"
| "thrown s (f # fs) =
     (if enabled f \<and> getGroup s (groupId f) = None then Some TypeError else thrown s fs)"

subsection \<open>A batch of events\<close>

text \<open>The events of one filter in arrival order, the filters of a batch that need saving,
  the reads issued for them, and the state once the batch has been taken from the
  history.\<close>

definition events_for :: "nat \<Rightarrow> filter_event list \<Rightarrow> filter_event list" where
  "events_for k evs = filter (\<lambda>e. filter_obj e = Some k) evs"

definition dirty :: "filter_event list \<Rightarrow> nat list" where
  "dirty evs = dirtyFilters (eventsByFilter_loop evs [])"

definition save_reads :: "nat \<Rightarrow> filter_event list \<Rightarrow> pending_op list" where
  "save_reads b evs = map (\<lambda>k. SaveRead b (Key k) (events_for k evs)) (dirty evs)"

definition taken :: "state \<Rightarrow> state" where
  "taken s = s\<lparr>filterEventsHistory := [], onFilterChangeTimeout := None, fresh := Suc (fresh s)\<rparr>"

subsection \<open>The reads of a rebuild completing\<close>

text \<open>\<open>deliver ext r order\<close> runs the read callbacks of rebuild \<open>r\<close> in the given order,
  each with the identifier read and the text the store answered; \<open>collect\<close> is the
  \<^verbatim>\<open>rulesFilterMap\<close> they leave. \<open>deliver_each\<close> does so for the rebuilds \<open>r\<close>,
  \<open>r + 1\<close>, ... one after the other.\<close>

definition collect :: "(nat \<times> string list option) list \<Rightarrow> (nat \<times> string list) list \<Rightarrow> (nat \<times> string list) list" where
  "collect order m =
     fold (\<lambda>(f, res) m. case res of None \<Rightarrow> m | Some text \<Rightarrow> AList.update f text m) order m"

definition deliver :: "externals \<Rightarrow> nat \<Rightarrow> (nat \<times> string list option) list \<Rightarrow> state \<Rightarrow> state" where
  "deliver ext r order s = fold (\<lambda>(f, res). loadFilterRulesFromStorage_callback ext r f res) order s"

fun deliver_each ::
  "externals \<Rightarrow> nat \<Rightarrow> (nat \<times> string list option) list list \<Rightarrow> state \<Rightarrow> state" where
  "deliver_each ext r [] s = s"
| "deliver_each ext r (order # orders) s = deliver_each ext (Suc r) orders (deliver ext r order s)"

subsection \<open>Triggers, publications and aborted rebuilds\<close>

text \<open>The actions that can ask for a rebuild or lead to one without being part of a
  rebuild that is already past the guard of \<^verbatim>\<open>createRequestFilter\<close>.\<close>

fun late_trigger :: "action \<Rightarrow> bool" where
  "late_trigger (Rebuild cb) = True"
| "late_trigger TimerFired = True"
| "late_trigger (Notification ev arg rls) = True"
| "late_trigger (Complete (SaveRead b k evs)) = True"
| "late_trigger (Complete (SaveWrite b k c)) = True"
| "late_trigger (Tick t) = True"
| "late_trigger _ = False"

text \<open>Nothing of a rebuild happened between two states.\<close>

definition no_rebuild :: "state \<Rightarrow> state \<Rightarrow> bool" where
  "no_rebuild s s' =
     (requestFilter s' = requestFilter s \<and>
      applicationRunning s' = applicationRunning s \<and>
      rebuilds s' = rebuilds s \<and>
      filter rebuild_op (pending s') = filter rebuild_op (pending s) \<and>
      filter is_StartEngine (trace s') = filter is_StartEngine (trace s))"



definition keeps :: "nat \<Rightarrow> state \<Rightarrow> state \<Rightarrow> bool" where
  "keeps r s s' =
     (fresh s \<le> fresh s' \<and> rebuilds s' r = rebuilds s r \<and>
      filter (awaits_of r) (pending s') = filter (awaits_of r) (pending s) \<and>
      filter (reads_of r) (pending s') = filter (reads_of r) (pending s))"

subsection \<open>Initialisation\<close>

definition same_init :: "state \<Rightarrow> state \<Rightarrow> bool" where
  "same_init s s' =
     (applicationInitialized s' = applicationInitialized s \<and> initializations s' = initializations s)"

definition init_once :: "state \<Rightarrow> bool" where
  "init_once s =
     ((applicationInitialized s \<longrightarrow> initializations s \<le> 1) \<and>
      (\<not> applicationInitialized s \<longrightarrow> initializations s = 0))"

subsection \<open>An engine that finds no rule in empty texts\<close>

definition blank_lists_count_zero :: "externals \<Rightarrow> bool" where
  "blank_lists_count_zero ext =
     (\<forall>ls. list_all (\<lambda>l. list_text l = []) ls \<longrightarrow> engineRulesCount ext ls = 0)"

subsection \<open>Object numbers\<close>

text \<open>The numbers below \<open>fresh\<close> are the ones given out: the request filter in place
  and every request filter whose engine start is awaited carry one of them.
  \<open>adds_no_object\<close> says that a step made no request filter: the one in place is the
  same and no awaited engine start was added.\<close>

fun await_below :: "nat \<Rightarrow> pending_op \<Rightarrow> bool" where
  "await_below n (AwaitStartEngine r i l) = (i < n)"
| "await_below n _ = True"

definition objects_numbered :: "state \<Rightarrow> bool" where
  "objects_numbered s =
     (rf_id (requestFilter s) < fresh s \<and> list_all (await_below (fresh s)) (pending s))"

definition adds_no_object :: "state \<Rightarrow> state \<Rightarrow> bool" where
  "adds_no_object s s' =
     (fresh s \<le> fresh s' \<and> requestFilter s' = requestFilter s \<and>
      list_all (\<lambda>p. p \<in> set (pending s) \<or> await_below 0 p) (pending s'))"

section \<open>Concrete inputs\<close>

text \<open>Collaborators for the examples: the user filter is filter 0, conversion changes
  nothing, every filter is trusted and the engine counts the lines that are not empty.\<close>

definition count_rules :: "StringRuleList list \<Rightarrow> nat" where
  "count_rules ls =
     sum_list (map (\<lambda>l. case l of StringRuleList _ text _ _ \<Rightarrow>
                           length (filter (\<lambda>line. line \<noteq> []) (split_newline text))) ls)"

definition ext0 :: externals where
  "ext0 = \<lparr>USER_FILTER_ID = 0, convertRules = (\<lambda>t. t), isTrustedFilter = (\<lambda>_. True),
            engineRulesCount = count_rules\<rparr>"

definition two_rules :: "string list" where
  "two_rules = [''a.com##.ad'', ''b.com##.ad'']"

text \<open>The module as loaded with nothing registered and nothing stored, and after a first
  \<^verbatim>\<open>start\<close>.\<close>

definition s0 :: state where
  "s0 = init_state [] [] Map.empty"

definition s_started :: state where
  "s_started = start ext0 NotFn (Fn 0) s0"

text \<open>A registry of three filters in two groups, of which only filter 1 takes part, over
  a store that holds two rules for it; a store that holds one empty line for it; the
  module after a first \<^verbatim>\<open>start\<close> over each.\<close>

definition registry_filters :: "subscription_filter list" where
  "registry_filters =
     [\<lparr>filterId = 1, groupId = 1, enabled = True, version = ''1.0''\<rparr>,
      \<lparr>filterId = 2, groupId = 2, enabled = True, version = ''1.0''\<rparr>,
      \<lparr>filterId = 3, groupId = 1, enabled = False, version = ''1.0''\<rparr>]"

definition registry_groups :: "subscription_group list" where
  "registry_groups = [\<lparr>group_id = 1, group_enabled = True\<rparr>, \<lparr>group_id = 2, group_enabled = False\<rparr>]"

definition two_rules_store :: "nat \<Rightarrow> string list option" where
  "two_rules_store = Map.empty(1 \<mapsto> [''a.com##.ad'', ''b.com##.ad''])"

definition blank_store :: "nat \<Rightarrow> string list option" where
  "blank_store = Map.empty(1 \<mapsto> [''''])"

definition s_running :: state where
  "s_running = start ext0 NotFn NotFn (init_state registry_filters registry_groups two_rules_store)"

definition s_blank :: state where
  "s_blank = start ext0 NotFn NotFn (init_state registry_filters registry_groups blank_store)"

text \<open>Events and schedules; \<open>s_batch\<close> is the started module with one replace event
  recorded.\<close>

definition remove_a_event :: filter_event where
  "remove_a_event = \<lparr>event = REMOVE_RULE, filter_obj = Some 1, group_obj = None, rules = Some 2\<rparr>"

definition replace_event :: filter_event where
  "replace_event =
     \<lparr>event = UPDATE_FILTER_RULES, filter_obj = Some 1, group_obj = None, rules = Some 3\<rparr>"

definition rule_event :: "nat \<Rightarrow> filter_event" where
  "rule_event a =
     \<lparr>event = UPDATE_FILTER_RULES, filter_obj = Some 1, group_obj = None, rules = Some a\<rparr>"

definition lists_of :: "string \<Rightarrow> StringRuleList list" where
  "lists_of text = [StringRuleList 1 text False False]"

definition s_batch :: state where
  "s_batch =
     run ext0 [CallerArray 3 [''x''], Notification UPDATE_FILTER_RULES (Some 1) (Some 3)] s_started"

definition late_acts :: "action list" where
  "late_acts = [Rebuild (Fn 1), Notification ADD_RULES (Some 1) (Some 3), TimerFired]"

definition three_rebuilds :: "action list" where
  "three_rebuilds =
     [Rebuild (Fn 1), Rebuild NotFn, Rebuild NotFn,
      Complete (LoadRead 1 0), Complete (LoadRead 2 0), Complete (LoadRead 3 0)]"

definition two_orders :: "(nat \<times> string list option) list list" where
  "two_orders = [[(1, None), (0, None)], [(0, None), (1, None)]]"

definition empty_rebuild :: "action list" where
  "empty_rebuild = [Rebuild NotFn, Complete (LoadRead 1 0), Complete (AwaitStartEngine 1 2 [])]"

definition s_compiling :: state where
  "s_compiling = run ext0 [Rebuild NotFn, Complete (LoadRead 1 0)] s_started"

definition empty_closure :: rebuild where
  "empty_closure = \<lparr>rb_callback = NotFn, rulesFilterMap = [], promises = 0, awaited = True\<rparr>"

definition two_recoveries :: "action list" where
  "two_recoveries =
     [Rebuild NotFn, Complete (LoadRead 1 1), Complete (LoadRead 1 0),
      Complete (AwaitStartEngine 1 2 (lists_of '''')),
      CallerArray 2 [''a.com##.ad''],
      Notification UPDATE_FILTER_RULES (Some 1) (Some 2), TimerFired,
      Complete (SaveRead 4 (Key 1) [rule_event 2]),
      Complete (SaveWrite 4 (Key 1) [''a.com##.ad'']),
      Complete (LoadRead 5 1), Complete (LoadRead 5 0),
      Complete (AwaitStartEngine 5 6 (lists_of ''a.com##.ad'')),
      CallerArray 4 [''''],
      Notification UPDATE_FILTER_RULES (Some 1) (Some 4), TimerFired,
      Complete (SaveRead 8 (Key 1) [rule_event 4]),
      Complete (SaveWrite 8 (Key 1) ['''']),
      Complete (LoadRead 9 1), Complete (LoadRead 9 0),
      Complete (AwaitStartEngine 9 10 (lists_of ''''))]"

text \<open>A replace event, a removal and the same replace event again, all three for filter 1
  and the two replace events made with one array; the notifications that record them,
  and the saving of the batch.\<close>

definition shared_events :: "filter_event list" where
  "shared_events = [rule_event 1, remove_a_event, rule_event 1]"

definition shared_notifications :: "action list" where
  "shared_notifications =
     [CallerArray 1 two_rules, CallerArray 2 [''a.com##.ad''],
      Notification UPDATE_FILTER_RULES (Some 1) (Some 1),
      Notification REMOVE_RULE (Some 1) (Some 2),
      Notification UPDATE_FILTER_RULES (Some 1) (Some 1)]"

definition shared_save :: "action list" where
  "shared_save =
     [TimerFired, Complete (SaveRead 4 (Key 1) shared_events),
      Complete (SaveWrite 4 (Key 1) [''b.com##.ad''])]"




section \<open>Properties\<close>

subsection \<open>Lists and objects\<close>

lemma filter_remove1_other: "\<not> P p \<Longrightarrow> filter P (remove1 p xs) = filter P xs"
  by (induction xs) auto

lemma filter_map_none: "(\<And>x. \<not> P (f x)) \<Longrightarrow> filter P (map f xs) = []"
  by (induction xs) auto


lemma set_obj_keys: "set (obj_keys m) = set (map fst m)"
  by (auto simp: obj_keys_def)

lemma distinct_obj_keys: "distinct (map fst m) \<Longrightarrow> distinct (obj_keys m)"
  by (auto simp: obj_keys_def)

subsection \<open>A rebuild request\<close>

text \<open>\<^verbatim>\<open>createRequestFilter\<close> as one equation: what it adds to the closures, the pending
  operations and the trace, with everything else left as it is.\<close>

lemma loadFilterRulesFromStorage_eq:
  "rebuilds s r = Some t \<Longrightarrow>
   loadFilterRulesFromStorage r f s =
     s\<lparr>rebuilds := (rebuilds s)(r \<mapsto> t\<lparr>promises := Suc (promises t)\<rparr>),
       pending := pending s @ [LoadRead r f],
       trace := trace s @ [StorageRead f]\<rparr>"
  by (simp add: loadFilterRulesFromStorage_def enqueue_def emit_def)

lemma issued_cong: "groups s' = groups s \<Longrightarrow> issued s' fs = issued s fs"
  by (induction fs) (simp_all add: participates_def getGroup_def)

lemma thrown_cong: "groups s' = groups s \<Longrightarrow> thrown s' fs = thrown s fs"
  by (induction fs) (simp_all add: getGroup_def)

lemma loadFilterRules_loop_eq:
  "rebuilds s r = Some t \<Longrightarrow>
   loadFilterRules_loop r fs s =
       (thrown s fs,
        s\<lparr>rebuilds := (rebuilds s)(r \<mapsto> t\<lparr>promises := promises t + length (issued s fs)\<rparr>),
          pending := pending s @ map (LoadRead r) (issued s fs),
          trace := trace s @ map StorageRead (issued s fs)\<rparr>)"
proof (induction fs arbitrary: s t)
  case Nil
  then show ?case by (simp add: map_upd_triv)
next
  case (Cons f fs)
  note IH = Cons.IH and rb = Cons.prems
  show ?case
  proof (cases "participates s f")
    case False
    have "loadFilterRules_loop r (f # fs) s =
        (if enabled f \<and> getGroup s (groupId f) = None then (Some TypeError, s)
         else loadFilterRules_loop r fs s)"
      using False by (auto simp: participates_def split: option.splits)
    also have "\<dots> = (thrown s (f # fs),
        s\<lparr>rebuilds := (rebuilds s)(r \<mapsto> t\<lparr>promises := promises t + length (issued s (f # fs))\<rparr>),
          pending := pending s @ map (LoadRead r) (issued s (f # fs)),
          trace := trace s @ map StorageRead (issued s (f # fs))\<rparr>)"
    proof (cases "enabled f \<and> getGroup s (groupId f) = None")
      case True
      have "(rebuilds s)(r \<mapsto> t) = rebuilds s" using rb by (rule map_upd_triv)
      then show ?thesis using True False by simp
    next
      case F: False
      then show ?thesis using False by (simp only: IH[OF rb] issued.simps thrown.simps if_False)
    qed
    finally show ?thesis .
  next
    case p: True
    then obtain g where en: "enabled f" and g: "getGroup s (groupId f) = Some g" and ge: "group_enabled g"
      by (auto simp: participates_def split: option.splits)
    define t1 where "t1 = t\<lparr>promises := Suc (promises t)\<rparr>"
    define s1 where "s1 = s\<lparr>rebuilds := (rebuilds s)(r \<mapsto> t1),
                 pending := pending s @ [LoadRead r (filterId f)],
                 trace := trace s @ [StorageRead (filterId f)]\<rparr>"
    have s1: "loadFilterRulesFromStorage r (filterId f) s = s1"
      unfolding s1_def t1_def by (rule loadFilterRulesFromStorage_eq[OF rb])
    have rb1: "rebuilds s1 r = Some t1" by (simp add: s1_def)
    have g1: "groups s1 = groups s" by (simp add: s1_def)
    have step: "loadFilterRules_loop r (f # fs) s = loadFilterRules_loop r fs s1"
      using en g ge s1 by simp
    have "loadFilterRules_loop r (f # fs) s = loadFilterRules_loop r fs s1"
      by (rule step)
    also have "\<dots> = (thrown s1 fs,
        s1\<lparr>rebuilds := (rebuilds s1)(r \<mapsto> t1\<lparr>promises := promises t1 + length (issued s1 fs)\<rparr>),
          pending := pending s1 @ map (LoadRead r) (issued s1 fs),
          trace := trace s1 @ map StorageRead (issued s1 fs)\<rparr>)"
      by (rule IH[OF rb1])
    also have "\<dots> = (thrown s (f # fs),
        s\<lparr>rebuilds := (rebuilds s)(r \<mapsto> t\<lparr>promises := promises t + length (issued s (f # fs))\<rparr>),
          pending := pending s @ map (LoadRead r) (issued s (f # fs)),
          trace := trace s @ map StorageRead (issued s (f # fs))\<rparr>)"
      using p en g
      by (simp add: s1_def t1_def
          issued_cong[of "s\<lparr>rebuilds := a, pending := b, trace := c\<rparr>" s for a b c]
          thrown_cong[of "s\<lparr>rebuilds := a, pending := b, trace := c\<rparr>" s for a b c])
    finally show ?thesis .
  qed
qed

lemma issued_known:
  "list_all (\<lambda>f. enabled f \<longrightarrow> getGroup s (groupId f) \<noteq> None) fs \<Longrightarrow>
   issued s fs = map filterId (filter (participates s) fs) \<and> thrown s fs = None"
  by (induction fs) auto

lemma createRequestFilter_stopped:
  "\<not> applicationRunning s \<Longrightarrow>
   createRequestFilter ext cb s = (case cb of Fn n \<Rightarrow> emit (Called n) s | NotFn \<Rightarrow> s)"
  by (simp add: createRequestFilter_def call_def split: callback.splits)

lemma createRequestFilter_running:
  assumes "applicationRunning s"
  shows "createRequestFilter ext cb s =
     (case thrown s (filters s) of
        Some err \<Rightarrow>
          s\<lparr>fresh := Suc (fresh s),
            rebuilds := (rebuilds s)(fresh s \<mapsto>
              \<lparr>rb_callback = cb, rulesFilterMap = [],
               promises = length (issued s (filters s)), awaited = False\<rparr>),
            pending := pending s @ map (LoadRead (fresh s)) (issued s (filters s)),
            trace := trace s @ map StorageRead (issued s (filters s)) @ [Uncaught err]\<rparr>
      | None \<Rightarrow>
          s\<lparr>fresh := Suc (fresh s),
            rebuilds := (rebuilds s)(fresh s \<mapsto>
              \<lparr>rb_callback = cb, rulesFilterMap = [],
               promises = Suc (length (issued s (filters s))), awaited = True\<rparr>),
            pending := pending s @ map (LoadRead (fresh s)) (issued s (filters s) @ [USER_FILTER_ID ext]),
            trace := trace s @ map StorageRead (issued s (filters s) @ [USER_FILTER_ID ext])\<rparr>)"
proof -
  define t0 where "t0 = \<lparr>rb_callback = cb, rulesFilterMap = [], promises = 0, awaited = False\<rparr>"
  define s1 where "s1 = s\<lparr>fresh := Suc (fresh s), rebuilds := (rebuilds s)(fresh s \<mapsto> t0)\<rparr>"
  have rb: "rebuilds s1 (fresh s) = Some t0" by (simp add: s1_def)
  have g: "groups s1 = groups s" by (simp add: s1_def)
  have f: "filters s1 = filters s" by (simp add: s1_def)
  note loop = loadFilterRules_loop_eq[OF rb, of "filters s", unfolded issued_cong[OF g] thrown_cong[OF g]]
  have c: "createRequestFilter ext cb s = loadFilterRules ext (fresh s) s1"
    using assms by (simp add: createRequestFilter_def s1_def t0_def Let_def)
  show ?thesis
    unfolding c loadFilterRules_def f loop
    by (simp add: s1_def t0_def emit_def await_all_def loadFilterRulesFromStorage_def enqueue_def
        split: option.splits)
qed

lemma createRequestFilter_known:
  assumes "applicationRunning s" and "groups_known s"
  shows "createRequestFilter ext cb s =
          s\<lparr>fresh := Suc (fresh s),
            rebuilds := (rebuilds s)(fresh s \<mapsto>
              \<lparr>rb_callback = cb, rulesFilterMap = [],
               promises = length (loaded_filters ext s), awaited = True\<rparr>),
            pending := pending s @ map (LoadRead (fresh s)) (loaded_filters ext s),
            trace := trace s @ map StorageRead (loaded_filters ext s)\<rparr>"
proof -
  from assms(2) have k: "issued s (filters s) = map filterId (filter (participates s) (filters s))"
    and n: "thrown s (filters s) = None"
    using issued_known[of s "filters s"] by (simp_all add: groups_known_def)
  show ?thesis
    unfolding createRequestFilter_running[OF assms(1)] n k
    by (simp add: loaded_filters_def)
qed

lemma registry_cong:
  "filters u = filters s \<Longrightarrow> groups u = groups s \<Longrightarrow>
   groups_known u = groups_known s \<and> loaded_filters ext u = loaded_filters ext s"
proof -
  assume f: "filters u = filters s" and g: "groups u = groups s"
  have gg: "getGroup u = getGroup s" by (rule ext) (simp add: getGroup_def g)
  have pp: "participates u = participates s" by (rule ext) (simp add: participates_def gg)
  show ?thesis by (simp add: groups_known_def loaded_filters_def f gg pp)
qed


lemma createRequestFilter_rulesStorage:
  "rulesStorage (createRequestFilter ext cb s) = rulesStorage s"
proof (cases "applicationRunning s")
  case True
  show ?thesis unfolding createRequestFilter_running[OF True] by (simp split: option.splits)
next
  case False
  show ?thesis unfolding createRequestFilter_stopped[OF False]
    by (simp add: emit_def split: callback.splits)
qed

subsection \<open>The reads of a rebuild\<close>

lemma collect_Cons:
  "collect ((f, res) # order) m =
     collect order (case res of None \<Rightarrow> m | Some text \<Rightarrow> AList.update f text m)"
  by (simp add: collect_def)

lemma collect_snoc:
  "collect (order @ [(f, res)]) m =
     (case res of None \<Rightarrow> collect order m | Some text \<Rightarrow> AList.update f text (collect order m))"
  by (cases res) (simp_all add: collect_def)

lemma keys_collect: "set (map fst (collect order m)) \<subseteq> set (map fst m) \<union> set (map fst order)"
proof (induction order arbitrary: m)
  case Nil
  then show ?case by (simp add: collect_def)
next
  case (Cons a order)
  obtain f res where a: "a = (f, res)" by (cases a)
  show ?case
    using Cons.IH[of "case res of None \<Rightarrow> m | Some text \<Rightarrow> AList.update f text m"]
    unfolding a collect_Cons
    by (cases res) (auto simp: dom_update)
qed

lemma ruleLists_ids: "set (map list_id (ruleLists ext m)) = set (map fst m)"
proof -
  have "map list_id (ruleLists ext m) = obj_keys m"
    by (simp add: ruleLists_def comp_def)
  then show ?thesis by (simp add: set_obj_keys)
qed

lemma onFiltersLoadedFromStorage_eq:
  "rebuilds s r = Some t \<Longrightarrow>
   onFiltersLoadedFromStorage ext r s =
     s\<lparr>fresh := Suc (fresh s),
       requestFilterInitTime := (if requestFilterInitTime s = 0 then clock s else requestFilterInitTime s),
       pending := pending s @ [AwaitStartEngine r (fresh s) (ruleLists ext (rulesFilterMap t))],
       trace := trace s @ init_notice s @ [StartEngine (ruleLists ext (rulesFilterMap t))]\<rparr>"
  by (simp add: onFiltersLoadedFromStorage_def new_RequestFilter_def startTSUrlfilterEngine_def
      notifyListeners_def emit_def enqueue_def init_notice_def Let_def)

lemma callback_not_last:
  "rebuilds s r = Some t \<Longrightarrow> \<not> (promises t = 1 \<and> awaited t) \<Longrightarrow>
   loadFilterRulesFromStorage_callback ext r f res s =
     s\<lparr>rebuilds := (rebuilds s)(r \<mapsto>
          t\<lparr>rulesFilterMap := collect [(f, res)] (rulesFilterMap t), promises := promises t - 1\<rparr>)\<rparr>"
  by (auto simp: loadFilterRulesFromStorage_callback_def Let_def collect_def split: option.splits)

lemma callback_last:
  "rebuilds s r = Some t \<Longrightarrow> promises t = 1 \<Longrightarrow> awaited t \<Longrightarrow>
   loadFilterRulesFromStorage_callback ext r f res s =
     s\<lparr>rebuilds := (rebuilds s)(r \<mapsto>
          t\<lparr>rulesFilterMap := collect [(f, res)] (rulesFilterMap t), promises := 0\<rparr>),
       fresh := Suc (fresh s),
       requestFilterInitTime := (if requestFilterInitTime s = 0 then clock s else requestFilterInitTime s),
       pending := pending s @
         [AwaitStartEngine r (fresh s) (ruleLists ext (collect [(f, res)] (rulesFilterMap t)))],
       trace := trace s @ init_notice s @
         [StartEngine (ruleLists ext (collect [(f, res)] (rulesFilterMap t)))]\<rparr>"
proof -
  assume rb: "rebuilds s r = Some t" and p: "promises t = 1" and a: "awaited t"
  define t1 where "t1 = t\<lparr>rulesFilterMap := collect [(f, res)] (rulesFilterMap t), promises := 0\<rparr>"
  define s1 where "s1 = s\<lparr>rebuilds := (rebuilds s)(r \<mapsto> t1)\<rparr>"
  have rb1: "rebuilds s1 r = Some t1" by (simp add: s1_def)
  have "loadFilterRulesFromStorage_callback ext r f res s = onFiltersLoadedFromStorage ext r s1"
    using rb p a
    by (auto simp: loadFilterRulesFromStorage_callback_def Let_def collect_def s1_def t1_def
        split: option.splits)
  then show ?thesis
    unfolding onFiltersLoadedFromStorage_eq[OF rb1]
    by (simp add: s1_def t1_def init_notice_def)
qed

lemma deliver_not_last:
  "rebuilds s r = Some t \<Longrightarrow> length order < promises t \<Longrightarrow>
   deliver ext r order s =
     s\<lparr>rebuilds := (rebuilds s)(r \<mapsto>
          t\<lparr>rulesFilterMap := collect order (rulesFilterMap t),
            promises := promises t - length order\<rparr>)\<rparr>"
proof (induction order arbitrary: s t)
  case Nil
  then show ?case by (simp add: deliver_def collect_def map_upd_triv)
next
  case (Cons a order)
  obtain f res where a: "a = (f, res)" by (cases a)
  define t1 where "t1 = t\<lparr>rulesFilterMap := collect [(f, res)] (rulesFilterMap t), promises := promises t - 1\<rparr>"
  define s1 where "s1 = s\<lparr>rebuilds := (rebuilds s)(r \<mapsto> t1)\<rparr>"
  have nl: "\<not> (promises t = 1 \<and> awaited t)" using Cons.prems(2) by simp
  have c: "loadFilterRulesFromStorage_callback ext r f res s = s1"
    unfolding s1_def t1_def by (rule callback_not_last[OF Cons.prems(1) nl])
  have rb1: "rebuilds s1 r = Some t1" by (simp add: s1_def)
  have len: "length order < promises t1" using Cons.prems(2) by (simp add: t1_def)
  have "deliver ext r (a # order) s = deliver ext r order s1"
    by (simp add: deliver_def a c)
  also have "\<dots> = s1\<lparr>rebuilds := (rebuilds s1)(r \<mapsto>
          t1\<lparr>rulesFilterMap := collect order (rulesFilterMap t1),
            promises := promises t1 - length order\<rparr>)\<rparr>"
    by (rule Cons.IH[OF rb1 len])
  also have "\<dots> = s\<lparr>rebuilds := (rebuilds s)(r \<mapsto>
          t\<lparr>rulesFilterMap := collect (a # order) (rulesFilterMap t),
            promises := promises t - length (a # order)\<rparr>)\<rparr>"
    by (simp add: s1_def t1_def a collect_def)
  finally show ?case .
qed

lemma deliver_complete:
  assumes "rebuilds u r = Some t" and "awaited t" and "promises t = length order" and "order \<noteq> []"
  shows "deliver ext r order u =
     u\<lparr>rebuilds := (rebuilds u)(r \<mapsto> t\<lparr>rulesFilterMap := collect order (rulesFilterMap t), promises := 0\<rparr>),
       fresh := Suc (fresh u),
       requestFilterInitTime := (if requestFilterInitTime u = 0 then clock u else requestFilterInitTime u),
       pending := pending u @ [AwaitStartEngine r (fresh u) (ruleLists ext (collect order (rulesFilterMap t)))],
       trace := trace u @ init_notice u @ [StartEngine (ruleLists ext (collect order (rulesFilterMap t)))]\<rparr>"
proof -
  from assms(4) obtain pre x where o: "order = pre @ [x]" by (cases order rule: rev_cases) auto
  obtain f res where x: "x = (f, res)" by (cases x)
  define t1 where "t1 = t\<lparr>rulesFilterMap := collect pre (rulesFilterMap t), promises := 1\<rparr>"
  define u1 where "u1 = u\<lparr>rebuilds := (rebuilds u)(r \<mapsto> t1)\<rparr>"
  have d1: "deliver ext r pre u = u1"
    using deliver_not_last[OF assms(1), of pre ext] assms(3) by (simp add: o u1_def t1_def)
  have rb1: "rebuilds u1 r = Some t1" by (simp add: u1_def)
  have p1: "promises t1 = 1" and a1: "awaited t1" using assms(2) by (simp_all add: t1_def)
  have c: "collect [(f, res)] (collect pre (rulesFilterMap t)) = collect order (rulesFilterMap t)"
    by (simp add: collect_def o x)
  have "deliver ext r order u = loadFilterRulesFromStorage_callback ext r f res u1"
    using d1 by (simp add: deliver_def o x)
  also have "\<dots> =
     u1\<lparr>rebuilds := (rebuilds u1)(r \<mapsto>
          t1\<lparr>rulesFilterMap := collect [(f, res)] (rulesFilterMap t1), promises := 0\<rparr>),
       fresh := Suc (fresh u1),
       requestFilterInitTime := (if requestFilterInitTime u1 = 0 then clock u1 else requestFilterInitTime u1),
       pending := pending u1 @
         [AwaitStartEngine r (fresh u1) (ruleLists ext (collect [(f, res)] (rulesFilterMap t1)))],
       trace := trace u1 @ init_notice u1 @
         [StartEngine (ruleLists ext (collect [(f, res)] (rulesFilterMap t1)))]\<rparr>"
    by (rule callback_last[OF rb1 p1 a1])
  also have "\<dots> =
     u\<lparr>rebuilds := (rebuilds u)(r \<mapsto> t\<lparr>rulesFilterMap := collect order (rulesFilterMap t), promises := 0\<rparr>),
       fresh := Suc (fresh u),
       requestFilterInitTime := (if requestFilterInitTime u = 0 then clock u else requestFilterInitTime u),
       pending := pending u @ [AwaitStartEngine r (fresh u) (ruleLists ext (collect order (rulesFilterMap t)))],
       trace := trace u @ init_notice u @ [StartEngine (ruleLists ext (collect order (rulesFilterMap t)))]\<rparr>"
    by (simp add: u1_def t1_def c init_notice_def)
  finally show ?thesis .
qed

lemma requestFilterInitialized_eq:
  assumes "rebuilds s r = Some t"
  shows "requestFilterInitialized ext r i l s =
     (let s3 = s\<lparr>requestFilter := \<lparr>rf_id = i, getRulesCount = engineRulesCount ext l\<rparr>,
                    rebuilds := (rebuilds s)(r := None),
                    trace := trace s @ callback_call (rb_callback t) @
                      [Notify REQUEST_FILTER_UPDATED (Some (engineRulesCount ext l))]\<rparr>
      in if isEmptyRulesFilterMap ext (rulesFilterMap t) then s3
         else if engineRulesCount ext l = 0 \<and> \<not> reloadedRules s
           then s3\<lparr>filters := map (\<lambda>f. f\<lparr>version := ''0.0.0.0''\<rparr>) (filters s),
                   trace := trace s3 @ [CheckAntiBannerFiltersUpdate True],
                   reloadedRules := True\<rparr>
         else if engineRulesCount ext l > 0 \<and> reloadedRules s
           then s3\<lparr>reloadedRules := False\<rparr>
         else s3)"
  using assms
  by (cases "rb_callback t")
    (simp_all add: requestFilterInitialized_def Let_def call_def notifyListeners_def emit_def
      getRequestFilterInfo_def callback_call_def reloadAntiBannerFilters_def resetFiltersVersion_def)

subsection \<open>A batch\<close>

lemma fold_processSave:
  "fold (\<lambda>k. processSaveFilterRulesToStorageEvents b (Key k) (ev k)) ks s =
   s\<lparr>pending := pending s @ map (\<lambda>k. SaveRead b (Key k) (ev k)) ks,
     trace := trace s @ map StorageRead ks\<rparr>"
  by (induction ks arbitrary: s)
    (simp_all add: processSaveFilterRulesToStorageEvents_def enqueue_def emit_def)

lemma map_of_eventsByFilter_loop:
  "map_of (eventsByFilter_loop evs acc) k =
     (if events_for k evs = [] then map_of acc k
      else Some ((case map_of acc k of None \<Rightarrow> [] | Some l \<Rightarrow> l) @ events_for k evs))"
proof (induction evs arbitrary: acc)
  case Nil
  then show ?case by (simp add: events_for_def)
next
  case (Cons e es)
  show ?case
  proof (cases "filter_obj e")
    case None
    then show ?thesis using Cons.IH[of acc] by (simp add: events_for_def)
  next
    case (Some j)
    then show ?thesis
      using Cons.IH[of "AList.update j ((case map_of acc j of None \<Rightarrow> [] | Some l \<Rightarrow> l) @ [e]) acc"]
      by (auto simp: events_for_def update_conv' split: option.splits)
  qed
qed

lemma distinct_eventsByFilter_loop:
  "distinct (map fst acc) \<Longrightarrow> distinct (map fst (eventsByFilter_loop evs acc))"
  by (induction evs arbitrary: acc) (auto simp: distinct_update split: option.splits)

lemma keys_eventsByFilter_loop:
  "set (map fst (eventsByFilter_loop evs acc)) = set (map fst acc) \<union> {k. events_for k evs \<noteq> []}"
proof -
  have "k \<in> set (map fst (eventsByFilter_loop evs acc)) \<longleftrightarrow>
        k \<in> set (map fst acc) \<or> events_for k evs \<noteq> []" for k
  proof -
    have a: "k \<in> set (map fst (eventsByFilter_loop evs acc)) \<longleftrightarrow>
             map_of (eventsByFilter_loop evs acc) k \<noteq> None"
      by (simp add: map_of_eq_None_iff)
    have b: "k \<in> set (map fst acc) \<longleftrightarrow> map_of acc k \<noteq> None"
      by (simp add: map_of_eq_None_iff)
    show ?thesis unfolding a b map_of_eventsByFilter_loop by simp
  qed
  then show ?thesis by auto
qed

lemma dirty_distinct: "distinct (dirty evs)"
  using distinct_obj_keys[OF distinct_eventsByFilter_loop[of "[]" evs]]
  by (simp add: dirty_def dirtyFilters_def)

lemma dirty_set:
  "set (dirty evs) = {k. list_ex isSaveRulesToStorageEvent (events_for k evs)}"
proof -
  have "k \<in> set (dirty evs) \<longleftrightarrow> list_ex isSaveRulesToStorageEvent (events_for k evs)" for k
    using map_of_eventsByFilter_loop[of evs "[]" k] keys_eventsByFilter_loop[of evs "[]"]
    by (cases "events_for k evs = []") (auto simp: dirty_def dirtyFilters_def set_obj_keys)
  then show ?thesis by auto
qed

lemma events_of_dirty:
  "k \<in> set (dirty evs) \<Longrightarrow>
   (case map_of (eventsByFilter_loop evs []) k of None \<Rightarrow> [] | Some l \<Rightarrow> l) = events_for k evs"
  using map_of_eventsByFilter_loop[of evs "[]" k] dirty_set[of evs]
  by (cases "events_for k evs = []") auto

lemma fold_saves:
  "fold (\<lambda>k. processSaveFilterRulesToStorageEvents b (Key k)
           (case map_of (eventsByFilter_loop evs []) k of None \<Rightarrow> [] | Some l \<Rightarrow> l))
     (dirty evs) s =
   s\<lparr>pending := pending s @ save_reads b evs, trace := trace s @ map StorageRead (dirty evs)\<rparr>"
proof -
  have "map (\<lambda>k. SaveRead b (Key k)
           (case map_of (eventsByFilter_loop evs []) k of None \<Rightarrow> [] | Some l \<Rightarrow> l)) (dirty evs)
        = save_reads b evs"
    unfolding save_reads_def by (rule map_cong) (simp_all add: events_of_dirty)
  then show ?thesis unfolding fold_processSave by simp
qed

lemma processEventsHistory_eq:
  "processEventsHistory ext s =
     (let evs = filterEventsHistory s;
          s2 = (taken s)\<lparr>pending := pending s @ save_reads (fresh s) evs,
                         trace := trace s @ map StorageRead (dirty evs)\<rparr>
      in if list_ex isUpdateRequestFilterEvent evs
         then (if dirty evs = [] then createRequestFilter ext NotFn s2
               else s2\<lparr>batches := (batches s)(fresh s \<mapsto> map Key (dirty evs))\<rparr>)
         else s2\<lparr>trace := trace s @ map StorageRead (dirty evs) @
                    [Notify REQUEST_FILTER_UPDATED (Some (getRulesCount (requestFilter s)))]\<rparr>)"
  unfolding processEventsHistory_def Let_def dirty_def[symmetric] fold_saves
  by (simp add: taken_def notifyListeners_def emit_def getRequestFilterInfo_def)

lemma saveWrite_step:
  assumes "SaveWrite b (Key k) c \<in> set (pending u)"
  shows "step ext (Complete (SaveWrite b (Key k) c)) u =
     dfd_resolve ext b (Key k)
       (u\<lparr>pending := remove1 (SaveWrite b (Key k) c) (pending u),
          rulesStorage := (rulesStorage u)(k \<mapsto> c)\<rparr>)"
  using assms by (simp add: complete_def saveWrite_callback_def Let_def)

subsection \<open>Facts about the concrete inputs\<close>

lemma s_running_facts:
  "applicationRunning s_running" "groups_known s_running"
  "loaded_filters ext0 s_running = [1, 0]"
  "trace s_running = [GetRunInfo NotFn NotFn]" "pending s_running = []" "fresh s_running = 1"
  "requestFilterInitTime s_running = 0"
  by (simp_all add: s_running_def start_def initialize_def emit_def init_state_def groups_known_def getGroup_def registry_filters_def
      registry_groups_def loaded_filters_def participates_def ext0_def)


lemma s_batch_history: "filterEventsHistory s_batch = [replace_event]"
  by (simp add: s_batch_def run_def s_started_def start_def initialize_def emit_def s0_def
      init_state_def listeners_def processFilterEvent_def Let_def replace_event_def)

lemma dirty_replace: "dirty [replace_event] = [1]"
  by (simp add: dirty_def dirtyFilters_def obj_keys_def replace_event_def
      isSaveRulesToStorageEvent_def SAVE_FILTER_RULES_TO_STORAGE_EVENTS_def)

lemma count_rules_blank: "list_all (\<lambda>l. list_text l = []) ls \<Longrightarrow> count_rules ls = 0"
proof (induction ls)
  case Nil
  then show ?case by (simp add: count_rules_def)
next
  case (Cons l ls)
  then show ?case by (cases l) (simp add: count_rules_def)
qed

subsection \<open>C1: rebuild requests during a rebuild\<close>

lemma rebuild_calls:
  assumes "applicationRunning s" and "groups_known s"
  shows "fresh (run ext (map Rebuild cbs) s) = fresh s + length cbs
     \<and> filters (run ext (map Rebuild cbs) s) = filters s
     \<and> groups (run ext (map Rebuild cbs) s) = groups s
     \<and> engine_starts (run ext (map Rebuild cbs) s) = engine_starts s
     \<and> awaited_starts (run ext (map Rebuild cbs) s) = awaited_starts s
     \<and> (\<forall>r < fresh s. rebuilds (run ext (map Rebuild cbs) s) r = rebuilds s r)
     \<and> (\<forall>j < length cbs. rebuilds (run ext (map Rebuild cbs) s) (fresh s + j) =
           Some \<lparr>rb_callback = cbs ! j, rulesFilterMap = [],
                 promises = length (loaded_filters ext s), awaited = True\<rparr>)"
  using assms
proof (induction cbs arbitrary: s)
  case Nil
  then show ?case by (simp add: run_def)
next
  case (Cons c cbs)
  define s1 where "s1 = createRequestFilter ext c s"
  have s1: "s1 = s\<lparr>fresh := Suc (fresh s),
            rebuilds := (rebuilds s)(fresh s \<mapsto>
              \<lparr>rb_callback = c, rulesFilterMap = [],
               promises = length (loaded_filters ext s), awaited = True\<rparr>),
            pending := pending s @ map (LoadRead (fresh s)) (loaded_filters ext s),
            trace := trace s @ map StorageRead (loaded_filters ext s)\<rparr>"
    unfolding s1_def by (rule createRequestFilter_known[OF Cons.prems])
  have r1: "applicationRunning s1" using Cons.prems(1) by (simp add: s1)
  have fg: "filters s1 = filters s" "groups s1 = groups s" by (simp_all add: s1)
  have k1: "groups_known s1" and l1: "loaded_filters ext s1 = loaded_filters ext s"
    using registry_cong[OF fg, of ext] Cons.prems(2) by simp_all
  have run: "run ext (map Rebuild (c # cbs)) s = run ext (map Rebuild cbs) s1"
    by (simp add: run_def s1_def)
  note IH = Cons.IH[OF r1 k1, unfolded l1]
  have es: "engine_starts s1 = engine_starts s" "awaited_starts s1 = awaited_starts s"
    by (simp_all add: s1 engine_starts_def awaited_starts_def filter_map_none)
  have f1: "fresh s1 = Suc (fresh s)" by (simp add: s1)
  have below: "\<forall>r < fresh s. rebuilds s1 r = rebuilds s r" by (simp add: s1)
  have at: "rebuilds s1 (fresh s) = Some \<lparr>rb_callback = c, rulesFilterMap = [],
               promises = length (loaded_filters ext s), awaited = True\<rparr>"
    by (simp add: s1)
  show ?case
    unfolding run
  proof (intro conjI allI impI)
    show "fresh (run ext (map Rebuild cbs) s1) = fresh s + length (c # cbs)"
      using IH f1 by simp
    show "filters (run ext (map Rebuild cbs) s1) = filters s" using IH fg by simp
    show "groups (run ext (map Rebuild cbs) s1) = groups s" using IH fg by simp
    show "engine_starts (run ext (map Rebuild cbs) s1) = engine_starts s" using IH es by simp
    show "awaited_starts (run ext (map Rebuild cbs) s1) = awaited_starts s" using IH es by simp
    show "rebuilds (run ext (map Rebuild cbs) s1) r = rebuilds s r" if "r < fresh s" for r
      using IH f1 below that by simp
    show "rebuilds (run ext (map Rebuild cbs) s1) (fresh s + j) =
           Some \<lparr>rb_callback = (c # cbs) ! j, rulesFilterMap = [],
                 promises = length (loaded_filters ext s), awaited = True\<rparr>"
      if "j < length (c # cbs)" for j
    proof (cases j)
      case 0
      then show ?thesis using IH f1 at by simp
    next
      case (Suc j')
      then have "j' < length cbs" using that by simp
      then show ?thesis using IH f1 Suc by simp
    qed
  qed
qed

lemma deliver_each_starts:
  assumes "\<forall>j < length orders. \<exists>t. rebuilds u (r + j) = Some t \<and> awaited t
              \<and> promises t = length (orders ! j) \<and> orders ! j \<noteq> []"
  shows "engine_starts (deliver_each ext r orders u) = engine_starts u + length orders
     \<and> awaited_starts (deliver_each ext r orders u) = awaited_starts u + length orders"
  using assms
proof (induction orders arbitrary: u r)
  case Nil
  then show ?case by simp
next
  case (Cons order orders)
  from Cons.prems[rule_format, of 0] obtain t where
    t: "rebuilds u r = Some t" "awaited t" "promises t = length order" "order \<noteq> []"
    by auto
  define u1 where "u1 = deliver ext r order u"
  note u1 = deliver_complete[OF t, of ext, folded u1_def]
  have st: "engine_starts u1 = Suc (engine_starts u)" "awaited_starts u1 = Suc (awaited_starts u)"
    unfolding u1 by (simp_all add: engine_starts_def awaited_starts_def init_notice_def)
  have rest: "\<forall>j < length orders. \<exists>t. rebuilds u1 (Suc r + j) = Some t \<and> awaited t
              \<and> promises t = length (orders ! j) \<and> orders ! j \<noteq> []"
  proof (intro allI impI)
    fix j assume "j < length orders"
    with Cons.prems[rule_format, of "Suc j"] show
      "\<exists>t. rebuilds u1 (Suc r + j) = Some t \<and> awaited t
              \<and> promises t = length (orders ! j) \<and> orders ! j \<noteq> []"
      unfolding u1 by simp
  qed
  from Cons.IH[OF rest] st show ?case by (simp add: u1_def)
qed

text \<open>
  \<^bold>\<open>C1\<close> (as amended). \<^verbatim>\<open>createRequestFilter\<close> has no single-flight guard. Every call
  made while the application runs (over a registry in which every enabled filter has
  its group) registers a rebuild of its own and issues its own reads, whatever rebuilds
  are in flight, and leaves those as they are. When the reads of each of \<open>n\<close> such
  calls have completed, in any order within a rebuild, the engine has been started \<open>n\<close>
  more times and \<open>n\<close> more engine starts are awaited at once: the calls are neither
  collapsed into one nor queued behind the rebuild in flight.
\<close>

theorem rebuilds_not_single_flight:
  assumes "applicationRunning s" and "groups_known s"
    and "length orders = length cbs"
    and "list_all (\<lambda>order. mset (map fst order) = mset (loaded_filters ext s)) orders"
  shows
    "createRequestFilter ext cb s =
       s\<lparr>fresh := Suc (fresh s),
         rebuilds := (rebuilds s)(fresh s \<mapsto>
           \<lparr>rb_callback = cb, rulesFilterMap = [],
            promises = length (loaded_filters ext s), awaited = True\<rparr>),
         pending := pending s @ map (LoadRead (fresh s)) (loaded_filters ext s),
         trace := trace s @ map StorageRead (loaded_filters ext s)\<rparr>
     \<and> engine_starts (deliver_each ext (fresh s) orders (run ext (map Rebuild cbs) s)) =
         engine_starts s + length cbs
     \<and> awaited_starts (deliver_each ext (fresh s) orders (run ext (map Rebuild cbs) s)) =
         awaited_starts s + length cbs"
proof -
  define u where "u = run ext (map Rebuild cbs) s"
  note calls = rebuild_calls[OF assms(1,2), of ext cbs, folded u_def]
  have cl: "\<forall>j < length orders. \<exists>t. rebuilds u (fresh s + j) = Some t \<and> awaited t
              \<and> promises t = length (orders ! j) \<and> orders ! j \<noteq> []"
  proof (intro allI impI)
    fix j assume j: "j < length orders"
    then have "mset (map fst (orders ! j)) = mset (loaded_filters ext s)"
      using assms(4) by (simp add: list_all_length)
    then have "size (mset (map fst (orders ! j))) = size (mset (loaded_filters ext s))" by simp
    then have len: "length (orders ! j) = length (loaded_filters ext s)" by simp
    have ne: "loaded_filters ext s \<noteq> []" by (simp add: loaded_filters_def)
    from len ne have ne': "orders ! j \<noteq> []" by auto
    from calls j assms(3) have "rebuilds u (fresh s + j) =
           Some \<lparr>rb_callback = cbs ! j, rulesFilterMap = [],
                 promises = length (loaded_filters ext s), awaited = True\<rparr>"
      by simp
    then show "\<exists>t. rebuilds u (fresh s + j) = Some t \<and> awaited t
              \<and> promises t = length (orders ! j) \<and> orders ! j \<noteq> []"
      using len ne' by simp
  qed
  from deliver_each_starts[OF cl, of ext] calls assms(3)
  have "engine_starts (deliver_each ext (fresh s) orders u) = engine_starts s + length cbs
     \<and> awaited_starts (deliver_each ext (fresh s) orders u) = awaited_starts s + length cbs"
    by simp
  then show ?thesis
    unfolding u_def using createRequestFilter_known[OF assms(1,2), of ext cb] by simp
qed

theorem rebuilds_not_single_flight_witness:
  "applicationRunning s_running \<and> groups_known s_running
   \<and> length two_orders = length [NotFn, NotFn]
   \<and> list_all (\<lambda>order. mset (map fst order) = mset (loaded_filters ext0 s_running)) two_orders
   \<and> engine_starts s_running = 0
   \<and> engine_starts (deliver_each ext0 (fresh s_running) two_orders
        (run ext0 (map Rebuild [NotFn, NotFn]) s_running)) = 2
   \<and> awaited_starts (deliver_each ext0 (fresh s_running) two_orders
        (run ext0 (map Rebuild [NotFn, NotFn]) s_running)) = 2"
proof -
  note f = s_running_facts
  have a: "length two_orders = length [NotFn, NotFn]" by (simp add: two_orders_def)
  have b: "list_all (\<lambda>order. mset (map fst order) = mset (loaded_filters ext0 s_running)) two_orders"
    by (simp add: two_orders_def f)
  have z: "engine_starts s_running = 0" "awaited_starts s_running = 0"
    by (simp_all add: engine_starts_def awaited_starts_def f)
  from rebuilds_not_single_flight[OF f(1) f(2) a b, of NotFn] z
  have "engine_starts (deliver_each ext0 (fresh s_running) two_orders
        (run ext0 (map Rebuild [NotFn, NotFn]) s_running)) = 2"
    and "awaited_starts (deliver_each ext0 (fresh s_running) two_orders
        (run ext0 (map Rebuild [NotFn, NotFn]) s_running)) = 2"
    by simp_all
  with f(1) f(2) a b z show ?thesis by blast
qed

text \<open>Against the property as the specification states it: with a first rebuild
  in flight (its read pending, no engine start yet), two more requests give three engine
  starts, all three awaited at the same time, so two additional compilations and not one.\<close>

theorem single_flight_counterexample:
  "applicationRunning s_started
   \<and> pending (run ext0 [Rebuild (Fn 1)] s_started) = [LoadRead 1 0]
   \<and> engine_starts (run ext0 [Rebuild (Fn 1)] s_started) = 0
   \<and> engine_starts (run ext0 three_rebuilds s_started) = 3
   \<and> pending (run ext0 three_rebuilds s_started) =
       [AwaitStartEngine 1 4 [], AwaitStartEngine 2 5 [], AwaitStartEngine 3 6 []]"
  by code_simp

subsection \<open>C2: saving the events of one filter\<close>

lemma removeAll_coll_take:
  "removeAll_coll xs (case r of [] \<Rightarrow> None | a # _ \<Rightarrow> Some a) =
     filter (\<lambda>line. [line] \<noteq> take 1 r) xs"
  by (cases r) (auto simp: removeAll_coll_def)

lemma spec_apply_event_cong:
  assumes "rules e \<noteq> Some a"
  shows "spec_apply_event (arrs(a := v)) content e = spec_apply_event arrs content e"
  using assms by (cases "rules e") (auto simp: spec_apply_event_def event_payload_def split: event_type.splits)

lemma foldl_spec_apply_event_cong:
  assumes "\<forall>e \<in> set es. rules e \<noteq> Some a"
  shows "foldl (spec_apply_event (arrs(a := v))) content es = foldl (spec_apply_event arrs) content es"
  using assms by (induction es arbitrary: content) (simp_all add: spec_apply_event_cong)

lemma applyEventsLoop_unshared:
  assumes "list_all has_payload events" and "unshared events"
    and "\<forall>a. loaded = Shared a \<longrightarrow> (\<forall>e \<in> set events. rules e \<noteq> Some a)"
  shows "\<exists>final arrs'. applyEventsLoop arrs (Some loaded) events = (Inr (Some final), arrs') \<and>
           lines_of arrs' final = foldl (spec_apply_event arrs) (lines_of arrs loaded) events"
  using assms
proof (induction events arbitrary: arrs loaded)
  case Nil
  then show ?case by simp
next
  case (Cons e es)
  from Cons.prems have hp: "list_all has_payload es" and us: "unshared es" by simp_all
  from Cons.prems(3) have rest: "\<forall>a. loaded = Shared a \<longrightarrow> (\<forall>e \<in> set es. rules e \<noteq> Some a)"
    by simp
  have save: "isSaveRulesToStorageEvent e \<Longrightarrow> \<exists>r. rules e = Some r"
    using Cons.prems(1) by (auto simp: has_payload_def)
  show ?case
  proof (cases "event e")
    case ADD_RULES
    then obtain r where r: "rules e = Some r"
      using save by (auto simp: isSaveRulesToStorageEvent_def SAVE_FILTER_RULES_TO_STORAGE_EVENTS_def)
    from Cons.IH[OF hp us, of "Own (lines_of arrs loaded @ arrs r)" arrs]
    show ?thesis
      by (simp add: ADD_RULES r spec_apply_event_def event_payload_def)
  next
    case REMOVE_RULE
    then obtain r where r: "rules e = Some r"
      using save by (auto simp: isSaveRulesToStorageEvent_def SAVE_FILTER_RULES_TO_STORAGE_EVENTS_def)
    show ?thesis
    proof (cases loaded)
      case (Own l)
      from Cons.IH[OF hp us, of "Own (removeAll_coll l (case arrs r of [] \<Rightarrow> None | x # _ \<Rightarrow> Some x))" arrs]
      show ?thesis
        by (simp add: REMOVE_RULE r Own spec_apply_event_def event_payload_def removeAll_coll_take)
    next
      case (Shared a)
      define v where "v = removeAll_coll (arrs a) (case arrs r of [] \<Rightarrow> None | x # _ \<Rightarrow> Some x)"
      from rest Shared have na: "\<forall>e \<in> set es. rules e \<noteq> Some a" by simp
      then have na': "\<forall>b. Shared a = Shared b \<longrightarrow> (\<forall>e \<in> set es. rules e \<noteq> Some b)" by simp
      from Cons.IH[OF hp us na', of "arrs(a := v)"]
      have "\<exists>final arrs'.
          applyEventsLoop (arrs(a := v)) (Some (Shared a)) es = (Inr (Some final), arrs') \<and>
          lines_of arrs' final = foldl (spec_apply_event (arrs(a := v))) v es"
        by (simp add: fun_upd_def)
      then have ih: "\<exists>final arrs'.
          applyEventsLoop (arrs(a := v)) (Some (Shared a)) es = (Inr (Some final), arrs') \<and>
          lines_of arrs' final = foldl (spec_apply_event arrs) v es"
        unfolding foldl_spec_apply_event_cong[OF na] .
      have hd: "spec_apply_event arrs (arrs a) e = v"
        by (simp add: REMOVE_RULE r spec_apply_event_def event_payload_def removeAll_coll_take v_def)
      have lp: "applyEventsLoop arrs (Some loaded) (e # es) =
                applyEventsLoop (arrs(a := v)) (Some (Shared a)) es"
        by (simp add: REMOVE_RULE r Shared v_def)
      show ?thesis unfolding lp using ih by (simp add: Shared hd)
    qed
  next
    case UPDATE_FILTER_RULES
    then obtain r where r: "rules e = Some r"
      using save by (auto simp: isSaveRulesToStorageEvent_def SAVE_FILTER_RULES_TO_STORAGE_EVENTS_def)
    from Cons.prems(2) UPDATE_FILTER_RULES r
    have "\<forall>b. Shared r = Shared b \<longrightarrow> (\<forall>e \<in> set es. rules e \<noteq> Some b)" by simp
    from Cons.IH[OF hp us this, of arrs]
    show ?thesis
      by (simp add: UPDATE_FILTER_RULES r spec_apply_event_def event_payload_def)
  next
    case FILTER_ENABLE_DISABLE
    from Cons.IH[OF hp us rest, of arrs] show ?thesis
      by (simp add: FILTER_ENABLE_DISABLE spec_apply_event_def)
  next
    case FILTER_GROUP_ENABLE_DISABLE
    from Cons.IH[OF hp us rest, of arrs] show ?thesis
      by (simp add: FILTER_GROUP_ENABLE_DISABLE spec_apply_event_def)
  next
    case UPDATE_USER_FILTER_RULES
    from Cons.IH[OF hp us rest, of arrs] show ?thesis
      by (simp add: UPDATE_USER_FILTER_RULES spec_apply_event_def)
  next
    case REQUEST_FILTER_UPDATED
    from Cons.IH[OF hp us rest, of arrs] show ?thesis
      by (simp add: REQUEST_FILTER_UPDATED spec_apply_event_def)
  next
    case APPLICATION_INITIALIZED
    from Cons.IH[OF hp us rest, of arrs] show ?thesis
      by (simp add: APPLICATION_INITIALIZED spec_apply_event_def)
  qed
qed

lemma applyEventsLoop_undefined:
  "events \<noteq> [] \<Longrightarrow> applyEventsLoop arrs None events = applyEventsLoop arrs (Some (Own [])) events"
  by (cases events) simp_all

lemma applyEventsLoop_stored:
  assumes "list_all has_payload events" and "unshared events" and "events \<noteq> []"
  shows "\<exists>final arrs'.
           applyEventsLoop arrs (map_option Own stored) events = (Inr (Some final), arrs') \<and>
           lines_of arrs' final =
             foldl (spec_apply_event arrs) (case stored of None \<Rightarrow> [] | Some l \<Rightarrow> l) events"
proof (cases stored)
  case None
  from applyEventsLoop_unshared[OF assms(1,2), of "Own []" arrs]
  show ?thesis unfolding None using applyEventsLoop_undefined[OF assms(3), of arrs] by simp
next
  case (Some l)
  from applyEventsLoop_unshared[OF assms(1,2), of "Own l" arrs]
  show ?thesis unfolding Some by simp
qed

lemma saveWrite_callback_rulesStorage: "rulesStorage (saveWrite_callback ext b k s) = rulesStorage s"
  by (simp add: saveWrite_callback_def dfd_resolve_def Let_def notifyListeners_def emit_def
      createRequestFilter_rulesStorage split: option.splits)

text \<open>Where no array of a replace event is the array of a later event, saving the events
  of one filter (with at least one add, remove or replace event among them, as the
  caller guarantees, each carrying its rules) does what the specification says: one
  read of the store, then one conversion (of the joined final lines, not of each
  event's), then one write; the lines written, and held by the store once the write has
  completed, are the events applied in arrival order to what the store held
  (\<open>spec_persisted\<close>).\<close>

lemma unshared_batch_persistence:
  assumes "list_ex isSaveRulesToStorageEvent events" and "list_all has_payload events"
    and "unshared events"
  shows
    "let s1 = processSaveFilterRulesToStorageEvents b k events s;
         s2 = step ext (Complete (SaveRead b k events)) s1;
         content = foldl (spec_apply_event (arrays s))
                     (case rulesStorage s (slot k) of None \<Rightarrow> [] | Some l \<Rightarrow> l) events;
         converted = split_newline (convertRules ext (join_newline content));
         s3 = step ext (Complete (SaveWrite b k converted)) s2
     in trace s1 = trace s @ [StorageRead (slot k)] \<and>
        rulesStorage s1 = rulesStorage s \<and>
        trace s2 = trace s1 @ [ConvertRules (join_newline content), StorageWrite (slot k) converted] \<and>
        rulesStorage s2 = rulesStorage s \<and>
        SaveWrite b k converted \<in> set (pending s2) \<and>
        rulesStorage s3 = (rulesStorage s)(slot k \<mapsto> converted) \<and>
        converted = spec_persisted ext (arrays s) (rulesStorage s (slot k)) events"
proof -
  from assms(1) have ne: "events \<noteq> []" by auto
  from applyEventsLoop_stored[OF assms(2,3) ne, of "arrays s" "rulesStorage s (slot k)"]
  obtain final arrs' where
    loop: "applyEventsLoop (arrays s) (map_option Own (rulesStorage s (slot k))) events =
             (Inr (Some final), arrs')"
    and res: "lines_of arrs' final =
             foldl (spec_apply_event (arrays s))
               (case rulesStorage s (slot k) of None \<Rightarrow> [] | Some l \<Rightarrow> l) events"
    by auto
  show ?thesis
    using loop res
    by (simp add: Let_def processSaveFilterRulesToStorageEvents_def complete_def saveRead_callback_def
        enqueue_def emit_def spec_persisted_def saveWrite_callback_rulesStorage)
qed

text \<open>
  \<^bold>\<open>C2.\<close> For every sequence of add, remove and replace events of one filter the lines
  written are to be the events applied in arrival order. \<^verbatim>\<open>loadedRulesText = eventRules\<close>
  (line 627) makes the array of a replace event the working list, and
  \<^verbatim>\<open>removeAll(loadedRulesText, actionRule)\<close> (line 623) removes from the working list in
  place, so from that array; \<^verbatim>\<open>concat\<close> (line 619) copies. When a later event of the
  batch was made with the same array the lines written are not the events applied in
  order. Here the events are a replace with \<open>[a.com##.ad, b.com##.ad]\<close>, the removal of
  \<open>a.com##.ad\<close>, and the replace made with the same array again: applied in order they
  give both rules; the store is read once, one conversion and one write are made, and
  the line written is \<open>b.com##.ad\<close> alone, the caller's array having lost its first
  rule.
\<close>

theorem shared_array_divergence:
  "filterEventsHistory (run ext0 shared_notifications s_started) = shared_events
   \<and> list_ex isSaveRulesToStorageEvent shared_events \<and> list_all has_payload shared_events
   \<and> arrays (run ext0 shared_notifications s_started) 1 = [''a.com##.ad'', ''b.com##.ad'']
   \<and> spec_persisted ext0 (arrays (run ext0 shared_notifications s_started))
        (rulesStorage s_started 1) shared_events = [''a.com##.ad'', ''b.com##.ad'']
   \<and> trace (run ext0 (shared_notifications @ shared_save) s_started) =
        [GetRunInfo NotFn (Fn 0), StorageRead 1, ConvertRules ''b.com##.ad'',
         StorageWrite 1 [''b.com##.ad''], StorageRead 0]
   \<and> rulesStorage (run ext0 (shared_notifications @ shared_save) s_started) 1 =
        Some [''b.com##.ad'']
   \<and> arrays (run ext0 (shared_notifications @ shared_save) s_started) 1 = [''b.com##.ad'']"
  by code_simp

subsection \<open>C3: what a batch leads to\<close>

text \<open>
  \<^bold>\<open>C3.\<close> Processing a batch issues one read per filter that has an add, remove or
  replace event (each filter once, with that filter's events in arrival order). If some
  event of the batch is of a rebuild-triggering kind, then with nothing to save
  \<^verbatim>\<open>createRequestFilter\<close> is called at once, and otherwise the batch waits for its
  writes: processing it starts no rebuild and leaves the request filter alone, a write
  that completes while others of the batch are outstanding only crosses itself off, and
  the write that completes last calls \<^verbatim>\<open>createRequestFilter\<close>, in a state whose store
  holds the written lines. If no event is of a rebuild-triggering kind, the reads are
  issued all the same, the request filter, the rebuilds and the waiting batches stay as
  they are, the current rule count is announced, and the completion of the batch's
  reads and writes starts no rebuild either.
\<close>

theorem batch_classification:
  "(list_ex isUpdateRequestFilterEvent (filterEventsHistory s) \<and> dirty (filterEventsHistory s) = [] \<longrightarrow>
      processEventsHistory ext s = createRequestFilter ext NotFn (taken s))
   \<and> (list_ex isUpdateRequestFilterEvent (filterEventsHistory s) \<and> dirty (filterEventsHistory s) \<noteq> [] \<longrightarrow>
      processEventsHistory ext s =
        (taken s)\<lparr>pending := pending s @ save_reads (fresh s) (filterEventsHistory s),
                  trace := trace s @ map StorageRead (dirty (filterEventsHistory s)),
                  batches := (batches s)(fresh s \<mapsto> map Key (dirty (filterEventsHistory s)))\<rparr>)
   \<and> (SaveWrite b (Key k) c \<in> set (pending u) \<and> batches u b = Some ds \<and> remove1 (Key k) ds \<noteq> [] \<longrightarrow>
      step ext (Complete (SaveWrite b (Key k) c)) u =
        u\<lparr>pending := remove1 (SaveWrite b (Key k) c) (pending u),
          rulesStorage := (rulesStorage u)(k \<mapsto> c),
          batches := (batches u)(b \<mapsto> remove1 (Key k) ds)\<rparr>)
   \<and> (SaveWrite b (Key k) c \<in> set (pending u) \<and> batches u b = Some ds \<and> remove1 (Key k) ds = [] \<longrightarrow>
      step ext (Complete (SaveWrite b (Key k) c)) u =
        createRequestFilter ext NotFn
          (u\<lparr>pending := remove1 (SaveWrite b (Key k) c) (pending u),
             rulesStorage := (rulesStorage u)(k \<mapsto> c),
             batches := (batches u)(b := None)\<rparr>))
   \<and> (\<not> list_ex isUpdateRequestFilterEvent (filterEventsHistory s) \<longrightarrow>
      processEventsHistory ext s =
        (taken s)\<lparr>pending := pending s @ save_reads (fresh s) (filterEventsHistory s),
                  trace := trace s @ map StorageRead (dirty (filterEventsHistory s)) @
                    [Notify REQUEST_FILTER_UPDATED (Some (getRulesCount (requestFilter s)))]\<rparr>
      \<and> requestFilter (processEventsHistory ext s) = requestFilter s
      \<and> rebuilds (processEventsHistory ext s) = rebuilds s
      \<and> batches (processEventsHistory ext s) = batches s)
   \<and> (SaveWrite b (Key k) c \<in> set (pending u) \<and> batches u b = None \<longrightarrow>
      step ext (Complete (SaveWrite b (Key k) c)) u =
        u\<lparr>pending := remove1 (SaveWrite b (Key k) c) (pending u),
          rulesStorage := (rulesStorage u)(k \<mapsto> c)\<rparr>)
   \<and> (requestFilter (step ext (Complete (SaveRead b (Key k) evs)) u) = requestFilter u
      \<and> rebuilds (step ext (Complete (SaveRead b (Key k) evs)) u) = rebuilds u
      \<and> batches (step ext (Complete (SaveRead b (Key k) evs)) u) = batches u)
   \<and> distinct (dirty (filterEventsHistory s))
   \<and> set (dirty (filterEventsHistory s)) =
        {k. list_ex isSaveRulesToStorageEvent (events_for k (filterEventsHistory s))}"
proof -
  let ?evs = "filterEventsHistory s"
  let ?w = "SaveWrite b (Key k) c"
  have p: "processEventsHistory ext s =
     (let evs = filterEventsHistory s;
          s2 = (taken s)\<lparr>pending := pending s @ save_reads (fresh s) evs,
                         trace := trace s @ map StorageRead (dirty evs)\<rparr>
      in if list_ex isUpdateRequestFilterEvent evs
         then (if dirty evs = [] then createRequestFilter ext NotFn s2
               else s2\<lparr>batches := (batches s)(fresh s \<mapsto> map Key (dirty evs))\<rparr>)
         else s2\<lparr>trace := trace s @ map StorageRead (dirty evs) @
                    [Notify REQUEST_FILTER_UPDATED (Some (getRulesCount (requestFilter s)))]\<rparr>)"
    by (rule processEventsHistory_eq)
  have e: "dirty ?evs = [] \<Longrightarrow>
     (taken s)\<lparr>pending := pending s @ save_reads (fresh s) ?evs,
                trace := trace s @ map StorageRead (dirty ?evs)\<rparr> = taken s"
    by (simp add: save_reads_def taken_def)
  have f1: "list_ex isUpdateRequestFilterEvent ?evs \<and> dirty ?evs = [] \<longrightarrow>
      processEventsHistory ext s = createRequestFilter ext NotFn (taken s)"
    unfolding p Let_def using e by simp
  have f2: "list_ex isUpdateRequestFilterEvent ?evs \<and> dirty ?evs \<noteq> [] \<longrightarrow>
      processEventsHistory ext s =
        (taken s)\<lparr>pending := pending s @ save_reads (fresh s) ?evs,
                  trace := trace s @ map StorageRead (dirty ?evs),
                  batches := (batches s)(fresh s \<mapsto> map Key (dirty ?evs))\<rparr>"
    unfolding p Let_def by simp
  have f3: "?w \<in> set (pending u) \<and> batches u b = Some ds \<and> remove1 (Key k) ds \<noteq> [] \<longrightarrow>
      step ext (Complete ?w) u =
        u\<lparr>pending := remove1 ?w (pending u),
          rulesStorage := (rulesStorage u)(k \<mapsto> c),
          batches := (batches u)(b \<mapsto> remove1 (Key k) ds)\<rparr>"
  proof (intro impI, elim conjE)
    assume a: "?w \<in> set (pending u)" and b: "batches u b = Some ds" and c: "remove1 (Key k) ds \<noteq> []"
    show "step ext (Complete ?w) u =
        u\<lparr>pending := remove1 ?w (pending u),
          rulesStorage := (rulesStorage u)(k \<mapsto> c),
          batches := (batches u)(b \<mapsto> remove1 (Key k) ds)\<rparr>"
      unfolding saveWrite_step[OF a] using b c by (simp add: dfd_resolve_def Let_def)
  qed
  have f4: "?w \<in> set (pending u) \<and> batches u b = Some ds \<and> remove1 (Key k) ds = [] \<longrightarrow>
      step ext (Complete ?w) u =
        createRequestFilter ext NotFn
          (u\<lparr>pending := remove1 ?w (pending u),
             rulesStorage := (rulesStorage u)(k \<mapsto> c),
             batches := (batches u)(b := None)\<rparr>)"
  proof (intro impI, elim conjE)
    assume a: "?w \<in> set (pending u)" and b: "batches u b = Some ds" and c: "remove1 (Key k) ds = []"
    show "step ext (Complete ?w) u =
        createRequestFilter ext NotFn
          (u\<lparr>pending := remove1 ?w (pending u),
             rulesStorage := (rulesStorage u)(k \<mapsto> c),
             batches := (batches u)(b := None)\<rparr>)"
      unfolding saveWrite_step[OF a] using b c by (simp add: dfd_resolve_def Let_def)
  qed
  have f5: "\<not> list_ex isUpdateRequestFilterEvent ?evs \<longrightarrow>
      processEventsHistory ext s =
        (taken s)\<lparr>pending := pending s @ save_reads (fresh s) ?evs,
                  trace := trace s @ map StorageRead (dirty ?evs) @
                    [Notify REQUEST_FILTER_UPDATED (Some (getRulesCount (requestFilter s)))]\<rparr>
      \<and> requestFilter (processEventsHistory ext s) = requestFilter s
      \<and> rebuilds (processEventsHistory ext s) = rebuilds s
      \<and> batches (processEventsHistory ext s) = batches s"
    unfolding p Let_def by (simp add: taken_def)
  have f6: "?w \<in> set (pending u) \<and> batches u b = None \<longrightarrow>
      step ext (Complete ?w) u =
        u\<lparr>pending := remove1 ?w (pending u), rulesStorage := (rulesStorage u)(k \<mapsto> c)\<rparr>"
  proof (intro impI, elim conjE)
    assume a: "?w \<in> set (pending u)" and b: "batches u b = None"
    show "step ext (Complete ?w) u =
        u\<lparr>pending := remove1 ?w (pending u), rulesStorage := (rulesStorage u)(k \<mapsto> c)\<rparr>"
      unfolding saveWrite_step[OF a] using b by (simp add: dfd_resolve_def Let_def)
  qed
  have r: "requestFilter (step ext (Complete (SaveRead b (Key k) evs)) u) = requestFilter u
      \<and> rebuilds (step ext (Complete (SaveRead b (Key k) evs)) u) = rebuilds u
      \<and> batches (step ext (Complete (SaveRead b (Key k) evs)) u) = batches u"
    by (simp add: complete_def saveRead_callback_def emit_def enqueue_def Let_def
        split: sum.splits option.splits prod.splits)
  from r have r1: "requestFilter (step ext (Complete (SaveRead b (Key k) evs)) u) = requestFilter u"
    and r2: "rebuilds (step ext (Complete (SaveRead b (Key k) evs)) u) = rebuilds u"
    and r3: "batches (step ext (Complete (SaveRead b (Key k) evs)) u) = batches u"
    by blast+
  show ?thesis
    by (intro conjI) (fact f1, fact f2, fact f3, fact f4, fact f5, fact f6, fact r1, fact r2, fact r3,
        fact dirty_distinct, fact dirty_set)
qed

theorem batch_classification_witness:
  "list_ex isUpdateRequestFilterEvent (filterEventsHistory s_batch)
   \<and> dirty (filterEventsHistory s_batch) = [1]
   \<and> batches (processEventsHistory ext0 s_batch) (fresh s_batch) = Some [Key 1]
   \<and> rebuilds (processEventsHistory ext0 s_batch) = rebuilds s_batch
   \<and> trace (processEventsHistory ext0 s_batch) = [GetRunInfo NotFn (Fn 0), StorageRead 1]
   \<and> map_option promises (rebuilds (run ext0
         [TimerFired,
          Complete (SaveRead 2 (Key 1) [replace_event]),
          Complete (SaveWrite 2 (Key 1) [''x''])] s_batch) 3) = Some 1
   \<and> trace (run ext0
         [TimerFired,
          Complete (SaveRead 2 (Key 1) [replace_event]),
          Complete (SaveWrite 2 (Key 1) [''x''])] s_batch) =
       [GetRunInfo NotFn (Fn 0), StorageRead 1, ConvertRules ''x'', StorageWrite 1 [''x''],
        StorageRead 0]"
proof -
  have a: "list_ex isUpdateRequestFilterEvent (filterEventsHistory s_batch)"
    by (simp add: s_batch_history replace_event_def isUpdateRequestFilterEvent_def
        UPDATE_REQUEST_FILTER_EVENTS_def)
  have b: "dirty (filterEventsHistory s_batch) = [1]"
    by (simp add: s_batch_history dirty_replace)
  from batch_classification[where s = s_batch and ext = ext0] a b
  have p: "processEventsHistory ext0 s_batch =
        (taken s_batch)\<lparr>pending := pending s_batch @ save_reads (fresh s_batch) (filterEventsHistory s_batch),
                  trace := trace s_batch @ map StorageRead (dirty (filterEventsHistory s_batch)),
                  batches := (batches s_batch)(fresh s_batch \<mapsto> map Key (dirty (filterEventsHistory s_batch)))\<rparr>"
    by simp
  have c: "trace s_batch = [GetRunInfo NotFn (Fn 0)]" "fresh s_batch = 2" "pending s_batch = []"
    "onFilterChangeTimeout s_batch \<noteq> None" "rulesStorage s_batch 1 = None"
    "applicationRunning s_batch" "filters s_batch = []" "arrays s_batch 3 = [''x'']"
    by (simp_all add: s_batch_def run_def s_started_def start_def initialize_def emit_def s0_def
        init_state_def listeners_def processFilterEvent_def Let_def)
  have sr: "save_reads 2 [replace_event] = [SaveRead 2 (Key 1) [replace_event]]"
    unfolding save_reads_def dirty_replace by (simp add: events_for_def replace_event_def)
  define s1 where "s1 = processEventsHistory ext0 s_batch"
  have s1: "s1 = (taken s_batch)\<lparr>pending := [SaveRead 2 (Key 1) [replace_event]],
                  trace := [GetRunInfo NotFn (Fn 0), StorageRead 1],
                  batches := (batches s_batch)(2 \<mapsto> [Key 1])\<rparr>"
    unfolding s1_def p by (simp add: c s_batch_history dirty_replace sr)
  define s2 where "s2 = step ext0 (Complete (SaveRead 2 (Key 1) [replace_event])) s1"
  have s2: "s2 = s1\<lparr>pending := [SaveWrite 2 (Key 1) [''x'']],
      trace := [GetRunInfo NotFn (Fn 0), StorageRead 1, ConvertRules ''x'', StorageWrite 1 [''x'']]\<rparr>"
    unfolding s2_def
    by (simp add: s1 complete_def saveRead_callback_def replace_event_def emit_def enqueue_def
        taken_def c ext0_def newline_def Let_def)
  have w: "SaveWrite 2 (Key 1) [''x''] \<in> set (pending s2)" by (simp add: s2)
  have bt: "batches s2 2 = Some [Key 1]" by (simp add: s2 s1)
  from batch_classification[where u = s2 and ext = ext0 and b = 2 and k = 1 and c = "[''x'']" and ds = "[Key 1]"]
    w bt
  have s3: "step ext0 (Complete (SaveWrite 2 (Key 1) [''x''])) s2 =
        createRequestFilter ext0 NotFn
          (s2\<lparr>pending := remove1 (SaveWrite 2 (Key 1) [''x'']) (pending s2),
             rulesStorage := (rulesStorage s2)(1 \<mapsto> [''x'']),
             batches := (batches s2)(2 := None)\<rparr>)"
    by simp
  have r: "run ext0 [TimerFired, Complete (SaveRead 2 (Key 1) [replace_event]),
          Complete (SaveWrite 2 (Key 1) [''x''])] s_batch =
       step ext0 (Complete (SaveWrite 2 (Key 1) [''x''])) s2"
  proof -
    have t1: "step ext0 TimerFired s_batch = s1" using c(4) by (auto simp: s1_def)
    have "run ext0 [TimerFired, Complete (SaveRead 2 (Key 1) [replace_event]),
          Complete (SaveWrite 2 (Key 1) [''x''])] s_batch =
        step ext0 (Complete (SaveWrite 2 (Key 1) [''x'']))
          (step ext0 (Complete (SaveRead 2 (Key 1) [replace_event])) (step ext0 TimerFired s_batch))"
      by (simp add: run_def del: step.simps)
    then show ?thesis unfolding t1 s2_def[symmetric] .
  qed
  define s2' where "s2' = s2\<lparr>pending := remove1 (SaveWrite 2 (Key 1) [''x'']) (pending s2),
             rulesStorage := (rulesStorage s2)(1 \<mapsto> [''x'']),
             batches := (batches s2)(2 := None)\<rparr>"
  have run: "applicationRunning s2'" "fresh s2' = 3" "filters s2' = []"
    "trace s2' = [GetRunInfo NotFn (Fn 0), StorageRead 1, ConvertRules ''x'', StorageWrite 1 [''x'']]"
    by (simp_all add: s2'_def s2 s1 taken_def c)
  have fin: "trace (run ext0 [TimerFired, Complete (SaveRead 2 (Key 1) [replace_event]),
          Complete (SaveWrite 2 (Key 1) [''x''])] s_batch) =
       [GetRunInfo NotFn (Fn 0), StorageRead 1, ConvertRules ''x'', StorageWrite 1 [''x''],
        StorageRead 0]
     \<and> map_option promises (rebuilds (run ext0
         [TimerFired, Complete (SaveRead 2 (Key 1) [replace_event]),
          Complete (SaveWrite 2 (Key 1) [''x''])] s_batch) 3) = Some 1"
    unfolding r s3 s2'_def[symmetric] createRequestFilter_running[OF run(1)]
    by (simp add: run ext0_def)
  show ?thesis
    using a b fin s1 c by (simp add: s1_def[symmetric] taken_def)
qed

subsection \<open>C4: a rebuild over an empty rule map\<close>

lemma empty_map_blank_lists:
  assumes "isEmptyRulesFilterMap ext m"
  shows "list_all (\<lambda>l. list_text l = []) (ruleLists ext m)"
proof (cases "length (obj_keys m) = 0")
  case True
  then show ?thesis by (simp add: ruleLists_def)
next
  case False
  with assms have one: "length (obj_keys m) = 1" and key: "obj_keys m ! 0 = USER_FILTER_ID ext"
    and e: "(case map_of m (USER_FILTER_ID ext) of None \<Rightarrow> True | Some userRules \<Rightarrow> length userRules = 0)"
    by (auto simp: isEmptyRulesFilterMap_def Let_def split: if_splits)
  from one key have k: "obj_keys m = [USER_FILTER_ID ext]"
    by (cases "obj_keys m") auto
  show ?thesis using e by (simp add: ruleLists_def k split: option.splits)
qed

text \<open>
  \<^bold>\<open>C4\<close> (as amended). Compilation is never skipped: once the reads of a rebuild have
  completed, \<^verbatim>\<open>engine.startEngine\<close> is called with one list per key of the rule map,
  also when the map is empty. When the map is empty or holds only an empty user
  filter, the rebuild publishes its new request filter with the count the engine
  reports (0 for an engine that finds no rule in empty texts), announces it, asks for
  no update check and leaves \<^verbatim>\<open>reloadedRules\<close> as it is. The forced update check is
  asked for by a rebuild whose map is not empty, whose count is 0 and which finds
  \<^verbatim>\<open>reloadedRules\<close> unset; it sets the flag, a later rebuild with count 0 asks for no
  further check while the flag is set, and a rebuild with a positive count over a
  non-empty map clears the flag again.
\<close>

theorem empty_rebuild_recovery:
  "(rebuilds s r = Some t \<longrightarrow>
      trace (onFiltersLoadedFromStorage ext r s) =
        trace s @ init_notice s @ [StartEngine (ruleLists ext (rulesFilterMap t))])
   \<and> (rebuilds s r = Some t \<and> isEmptyRulesFilterMap ext (rulesFilterMap t) \<longrightarrow>
      getRequestFilter (requestFilterInitialized ext r i l s) =
        \<lparr>rf_id = i, getRulesCount = engineRulesCount ext l\<rparr>
      \<and> reloadedRules (requestFilterInitialized ext r i l s) = reloadedRules s
      \<and> trace (requestFilterInitialized ext r i l s) =
          trace s @ callback_call (rb_callback t) @
            [Notify REQUEST_FILTER_UPDATED (Some (engineRulesCount ext l))])
   \<and> (rebuilds s r = Some t \<and> \<not> isEmptyRulesFilterMap ext (rulesFilterMap t)
        \<and> engineRulesCount ext l = 0 \<and> \<not> reloadedRules s \<longrightarrow>
      reloadedRules (requestFilterInitialized ext r i l s)
      \<and> trace (requestFilterInitialized ext r i l s) =
          trace s @ callback_call (rb_callback t) @
            [Notify REQUEST_FILTER_UPDATED (Some 0), CheckAntiBannerFiltersUpdate True])
   \<and> (rebuilds s r = Some t \<and> \<not> isEmptyRulesFilterMap ext (rulesFilterMap t)
        \<and> engineRulesCount ext l = 0 \<and> reloadedRules s \<longrightarrow>
      reloadedRules (requestFilterInitialized ext r i l s)
      \<and> trace (requestFilterInitialized ext r i l s) =
          trace s @ callback_call (rb_callback t) @ [Notify REQUEST_FILTER_UPDATED (Some 0)])
   \<and> (rebuilds s r = Some t \<and> \<not> isEmptyRulesFilterMap ext (rulesFilterMap t)
        \<and> engineRulesCount ext l > 0 \<longrightarrow>
      \<not> reloadedRules (requestFilterInitialized ext r i l s)
      \<and> trace (requestFilterInitialized ext r i l s) =
          trace s @ callback_call (rb_callback t) @
            [Notify REQUEST_FILTER_UPDATED (Some (engineRulesCount ext l))])
   \<and> (blank_lists_count_zero ext \<and> isEmptyRulesFilterMap ext m \<longrightarrow>
      engineRulesCount ext (ruleLists ext m) = 0)"
proof -
  have f1: "rebuilds s r = Some t \<longrightarrow>
      trace (onFiltersLoadedFromStorage ext r s) =
        trace s @ init_notice s @ [StartEngine (ruleLists ext (rulesFilterMap t))]"
    by (simp add: onFiltersLoadedFromStorage_eq)
  have f2: "rebuilds s r = Some t \<and> isEmptyRulesFilterMap ext (rulesFilterMap t) \<longrightarrow>
      getRequestFilter (requestFilterInitialized ext r i l s) =
        \<lparr>rf_id = i, getRulesCount = engineRulesCount ext l\<rparr>
      \<and> reloadedRules (requestFilterInitialized ext r i l s) = reloadedRules s
      \<and> trace (requestFilterInitialized ext r i l s) =
          trace s @ callback_call (rb_callback t) @
            [Notify REQUEST_FILTER_UPDATED (Some (engineRulesCount ext l))]"
    by (simp add: requestFilterInitialized_eq Let_def getRequestFilter_def)
  have f3: "rebuilds s r = Some t \<and> \<not> isEmptyRulesFilterMap ext (rulesFilterMap t)
        \<and> engineRulesCount ext l = 0 \<and> \<not> reloadedRules s \<longrightarrow>
      reloadedRules (requestFilterInitialized ext r i l s)
      \<and> trace (requestFilterInitialized ext r i l s) =
          trace s @ callback_call (rb_callback t) @
            [Notify REQUEST_FILTER_UPDATED (Some 0), CheckAntiBannerFiltersUpdate True]"
    by (simp add: requestFilterInitialized_eq Let_def)
  have f4: "rebuilds s r = Some t \<and> \<not> isEmptyRulesFilterMap ext (rulesFilterMap t)
        \<and> engineRulesCount ext l = 0 \<and> reloadedRules s \<longrightarrow>
      reloadedRules (requestFilterInitialized ext r i l s)
      \<and> trace (requestFilterInitialized ext r i l s) =
          trace s @ callback_call (rb_callback t) @ [Notify REQUEST_FILTER_UPDATED (Some 0)]"
    by (simp add: requestFilterInitialized_eq Let_def)
  have f5: "rebuilds s r = Some t \<and> \<not> isEmptyRulesFilterMap ext (rulesFilterMap t)
        \<and> engineRulesCount ext l > 0 \<longrightarrow>
      \<not> reloadedRules (requestFilterInitialized ext r i l s)
      \<and> trace (requestFilterInitialized ext r i l s) =
          trace s @ callback_call (rb_callback t) @
            [Notify REQUEST_FILTER_UPDATED (Some (engineRulesCount ext l))]"
    by (simp add: requestFilterInitialized_eq Let_def)
  have f6: "blank_lists_count_zero ext \<and> isEmptyRulesFilterMap ext m \<longrightarrow>
      engineRulesCount ext (ruleLists ext m) = 0"
    using empty_map_blank_lists[of ext m] by (auto simp: blank_lists_count_zero_def)
  show ?thesis
    by (intro conjI) (fact f1, fact f2, fact f3, fact f4, fact f5, fact f6)
qed

theorem empty_rebuild_recovery_witness:
  "rebuilds s_compiling 1 = Some empty_closure
   \<and> isEmptyRulesFilterMap ext0 (rulesFilterMap empty_closure)
   \<and> blank_lists_count_zero ext0
   \<and> engineRulesCount ext0 (ruleLists ext0 (rulesFilterMap empty_closure)) = 0
   \<and> getRequestFilter (requestFilterInitialized ext0 1 2 [] s_compiling) = \<lparr>rf_id = 2, getRulesCount = 0\<rparr>
   \<and> reloadedRules (requestFilterInitialized ext0 1 2 [] s_compiling) = reloadedRules s_compiling
   \<and> trace (requestFilterInitialized ext0 1 2 [] s_compiling) =
       trace s_compiling @ [Notify REQUEST_FILTER_UPDATED (Some 0)]"
proof -
  have a: "rebuilds s_compiling 1 = Some empty_closure" by code_simp
  have b: "isEmptyRulesFilterMap ext0 (rulesFilterMap empty_closure)" by code_simp
  have c: "blank_lists_count_zero ext0"
    by (simp add: blank_lists_count_zero_def ext0_def count_rules_blank)
  have d: "engineRulesCount ext0 [] = 0" by (simp add: ext0_def count_rules_def)
  have e: "callback_call (rb_callback empty_closure) = []"
    by (simp add: callback_call_def empty_closure_def)
  note t = empty_rebuild_recovery[where s = s_compiling and r = 1 and t = empty_closure
      and ext = ext0 and i = 2 and l = "[]" and m = "rulesFilterMap empty_closure"]
  from t a b have
    "getRequestFilter (requestFilterInitialized ext0 1 2 [] s_compiling) =
        \<lparr>rf_id = 2, getRulesCount = engineRulesCount ext0 []\<rparr>"
    and "reloadedRules (requestFilterInitialized ext0 1 2 [] s_compiling) = reloadedRules s_compiling"
    and "trace (requestFilterInitialized ext0 1 2 [] s_compiling) =
          trace s_compiling @ callback_call (rb_callback empty_closure) @
            [Notify REQUEST_FILTER_UPDATED (Some (engineRulesCount ext0 []))]"
    by blast+
  moreover from t b c have "engineRulesCount ext0 (ruleLists ext0 (rulesFilterMap empty_closure)) = 0"
    by blast
  ultimately show ?thesis using a b c by (simp add: d e)
qed

text \<open>Against the property as the specification states it: a rebuild whose rule
  map is empty starts the engine (on no list) and asks for no update check; and within
  one run of the application two update checks are asked for when a filter's rules go
  from nothing to one rule and back.\<close>

theorem empty_rebuild_counterexample:
  "isEmptyRulesFilterMap ext0 []
   \<and> trace (run ext0 [Rebuild NotFn, Complete (LoadRead 1 0)] s_started) =
       [GetRunInfo NotFn (Fn 0), StorageRead 0, Notify APPLICATION_INITIALIZED None, StartEngine []]
   \<and> map_option rulesFilterMap (rebuilds (run ext0 [Rebuild NotFn, Complete (LoadRead 1 0)] s_started) 1) = Some []
   \<and> trace (run ext0 empty_rebuild s_started) =
       [GetRunInfo NotFn (Fn 0), StorageRead 0, Notify APPLICATION_INITIALIZED None, StartEngine [],
        Notify REQUEST_FILTER_UPDATED (Some 0)]
   \<and> update_checks (run ext0 empty_rebuild s_started) = 0
   \<and> update_checks (run ext0 two_recoveries s_blank) = 2"
  by code_simp

subsection \<open>C5: an empty batch\<close>




subsection \<open>C6: start\<close>

lemma same_init_trans: "same_init s s' \<Longrightarrow> same_init s' s'' \<Longrightarrow> same_init s s''"
  by (simp add: same_init_def)

lemma createRequestFilter_same_init: "same_init s (createRequestFilter ext cb s)"
proof (cases "applicationRunning s")
  case True
  show ?thesis unfolding createRequestFilter_running[OF True]
    by (simp add: same_init_def initializations_def filter_map_none split: option.splits)
next
  case False
  show ?thesis unfolding createRequestFilter_stopped[OF False]
    by (simp add: same_init_def initializations_def emit_def split: callback.splits)
qed

lemma processEventsHistory_same_init: "same_init s (processEventsHistory ext s)"
proof -
  define s2 where "s2 = fold (\<lambda>k. processSaveFilterRulesToStorageEvents (fresh s) (Key k)
         (case map_of (eventsByFilter_loop (filterEventsHistory s) []) k of None \<Rightarrow> [] | Some l \<Rightarrow> l))
       (dirtyFilters (eventsByFilter_loop (filterEventsHistory s) []))
       (s\<lparr>filterEventsHistory := [], onFilterChangeTimeout := None, fresh := Suc (fresh s)\<rparr>)"
  have a: "same_init s s2"
    unfolding s2_def fold_processSave
    by (simp add: same_init_def initializations_def filter_map_none)
  have b: "same_init s2 (createRequestFilter ext NotFn s2)" by (rule createRequestFilter_same_init)
  have "processEventsHistory ext s = createRequestFilter ext NotFn s2 \<or>
        processEventsHistory ext s = s2\<lparr>batches := (batches s2)(fresh s \<mapsto> map Key
           (dirtyFilters (eventsByFilter_loop (filterEventsHistory s) [])))\<rparr> \<or>
        processEventsHistory ext s =
          notifyListeners REQUEST_FILTER_UPDATED (Some (getRequestFilterInfo s2)) s2"
    by (simp add: processEventsHistory_def Let_def s2_def)
  then show ?thesis using a b
    by (auto simp: same_init_def initializations_def notifyListeners_def emit_def)
qed

lemma onFiltersLoadedFromStorage_same_init: "same_init s (onFiltersLoadedFromStorage ext r s)"
  by (simp add: onFiltersLoadedFromStorage_def new_RequestFilter_def startTSUrlfilterEngine_def
      notifyListeners_def emit_def enqueue_def same_init_def initializations_def Let_def
      split: option.splits)

lemma loadFilterRulesFromStorage_callback_same_init:
  "same_init s (loadFilterRulesFromStorage_callback ext r f txt s)"
proof (cases "rebuilds s r")
  case None
  then show ?thesis by (simp add: loadFilterRulesFromStorage_callback_def same_init_def)
next
  case (Some t)
  define s1 where "s1 = s\<lparr>rebuilds := (rebuilds s)(r \<mapsto> t\<lparr>rulesFilterMap :=
      (case txt of None \<Rightarrow> rulesFilterMap t | Some text \<Rightarrow> AList.update f text (rulesFilterMap t)),
      promises := promises t - 1\<rparr>)\<rparr>"
  have a: "same_init s s1" by (simp add: s1_def same_init_def initializations_def)
  have "loadFilterRulesFromStorage_callback ext r f txt s = s1 \<or>
        loadFilterRulesFromStorage_callback ext r f txt s = onFiltersLoadedFromStorage ext r s1"
    using Some by (simp add: loadFilterRulesFromStorage_callback_def s1_def Let_def)
  then show ?thesis
    using a same_init_trans[OF a onFiltersLoadedFromStorage_same_init[of s1 ext r]] by auto
qed

lemma requestFilterInitialized_same_init: "same_init s (requestFilterInitialized ext r i l s)"
  by (simp add: requestFilterInitialized_def call_def notifyListeners_def emit_def
      reloadAntiBannerFilters_def resetFiltersVersion_def same_init_def initializations_def Let_def
      split: option.splits callback.splits)

lemma saveRead_callback_same_init: "same_init s (saveRead_callback ext b k evs l s)"
  by (simp add: saveRead_callback_def emit_def enqueue_def same_init_def initializations_def Let_def
      split: sum.splits option.splits prod.splits)

lemma saveWrite_callback_same_init: "same_init s (saveWrite_callback ext b k s)"
proof -
  have a: "same_init s (dfd_resolve ext b k s)"
    using createRequestFilter_same_init[of "s\<lparr>batches := (batches s)(b := None)\<rparr>" ext NotFn]
    by (simp add: dfd_resolve_def Let_def same_init_def initializations_def split: option.splits)
  then show ?thesis
    by (auto simp: saveWrite_callback_def Let_def notifyListeners_def emit_def same_init_def
        initializations_def)
qed

lemma complete_same_init: "same_init s (complete ext p s)"
  by (cases p)
    (simp_all add: complete_def loadFilterRulesFromStorage_callback_same_init
      requestFilterInitialized_same_init saveRead_callback_same_init,
     use saveWrite_callback_same_init in \<open>simp add: same_init_def initializations_def\<close>)

lemma fail_same_init: "same_init s (fail ext p s)"
  by (cases p)
    (simp_all add: fail_def loadFilterRulesFromStorage_callback_same_init
      saveRead_callback_same_init saveWrite_callback_same_init,
     simp add: same_init_def initializations_def emit_def)

lemma same_init_once: "same_init s s' \<Longrightarrow> init_once s \<Longrightarrow> init_once s'"
  by (simp add: same_init_def init_once_def)

lemma start_init_once: "init_once s \<Longrightarrow> init_once (start ext opts cb s)"
proof -
  assume i: "init_once s"
  have c: "same_init (s\<lparr>applicationRunning := True\<rparr>)
             (createRequestFilter ext cb (s\<lparr>applicationRunning := True\<rparr>))"
    by (rule createRequestFilter_same_init)
  show ?thesis
    using i c
    by (auto simp: start_def Let_def call_def emit_def initialize_def init_once_def same_init_def
        initializations_def split: callback.splits if_splits)
qed

lemma step_init_once: "init_once s \<Longrightarrow> init_once (step ext a s)"
proof (cases a)
  case (Start opts cb)
  assume "init_once s"
  then show ?thesis using Start by (simp add: start_init_once)
next
  case Stop
  assume "init_once s"
  then show ?thesis using Stop
    by (simp add: stop_def new_RequestFilter_def notifyListeners_def emit_def Let_def init_once_def
        initializations_def)
next
  case (Rebuild cb)
  assume "init_once s"
  then show ?thesis using Rebuild same_init_once[OF createRequestFilter_same_init] by simp
next
  case (Notification ev arg rls)
  assume "init_once s"
  then show ?thesis using Notification
    by (simp add: listeners_def processFilterEvent_def processGroupEvent_def Let_def init_once_def
        initializations_def)
next
  case TimerFired
  assume "init_once s"
  then show ?thesis using TimerFired same_init_once[OF processEventsHistory_same_init] by simp
next
  case (Complete p)
  assume i: "init_once s"
  have "init_once (s\<lparr>pending := remove1 p (pending s)\<rparr>)"
    using i by (simp add: init_once_def initializations_def)
  from same_init_once[OF complete_same_init this] show ?thesis using Complete i by simp
next
  case (Fail p)
  assume i: "init_once s"
  have "init_once (s\<lparr>pending := remove1 p (pending s)\<rparr>)"
    using i by (simp add: init_once_def initializations_def)
  from same_init_once[OF fail_same_init this] show ?thesis using Fail i by simp
next
  case (Tick t)
  assume "init_once s"
  then show ?thesis using Tick by (simp add: init_once_def initializations_def)
next
  case (CallerArray a ls)
  assume "init_once s"
  then show ?thesis using CallerArray by (simp add: init_once_def initializations_def)
next
  case (RegistryChanged fs gs)
  assume "init_once s"
  then show ?thesis using RegistryChanged by (simp add: init_once_def initializations_def)
qed

lemma run_init_once: "init_once s \<Longrightarrow> init_once (run ext acts s)"
  unfolding run_def by (induction acts arbitrary: s) (simp_all add: step_init_once)

text \<open>
  \<^bold>\<open>C6.\<close> \<^verbatim>\<open>start\<close> on a running application calls the callback once and changes
  nothing else, so a second call adds a second callback call and nothing else. From the
  module as loaded, whatever happens in whatever order, \<^verbatim>\<open>initialize\<close> is entered at
  most once; and once the application is initialised no \<^verbatim>\<open>start\<close> enters it again.
\<close>

theorem start_idempotent:
  "(applicationRunning s \<longrightarrow>
      start ext options (Fn n) s = emit (Called n) s \<and>
      start ext options' (Fn n') (start ext options (Fn n) s) = emit (Called n') (emit (Called n) s))
   \<and> initializations (run ext acts (init_state fs gs store)) \<le> 1
   \<and> (applicationInitialized s \<longrightarrow>
        initializations (start ext options callback s) = initializations s)"
proof -
  have a: "init_once (init_state fs gs store)"
    by (simp add: init_once_def init_state_def initializations_def)
  have b: "initializations (run ext acts (init_state fs gs store)) \<le> 1"
    using run_init_once[OF a, of ext acts] by (cases "applicationInitialized (run ext acts (init_state fs gs store))") (simp_all add: init_once_def)
  have c: "initializations (start ext options callback s) = initializations s"
    if "applicationInitialized s"
    using that createRequestFilter_same_init[of "s\<lparr>applicationRunning := True\<rparr>" ext callback]
    by (auto simp: start_def Let_def call_def emit_def same_init_def initializations_def
        split: callback.splits)
  show ?thesis using b c by (simp add: start_def call_def emit_def)
qed

theorem start_idempotent_witness:
  "applicationRunning s_started
   \<and> start ext0 NotFn (Fn 5) s_started = emit (Called 5) s_started
   \<and> start ext0 NotFn (Fn 6) (start ext0 NotFn (Fn 5) s_started) = emit (Called 6) (emit (Called 5) s_started)
   \<and> initializations s_started = 1
   \<and> initializations (start ext0 NotFn (Fn 5) s_started) = 1"
proof -
  have a: "applicationRunning s_started"
    by (simp add: s_started_def s0_def init_state_def start_def Let_def initialize_def emit_def)
  have i: "applicationInitialized s_started"
    by (simp add: s_started_def s0_def init_state_def start_def Let_def initialize_def emit_def)
  have n: "initializations s_started = 1"
    by (simp add: s_started_def s0_def init_state_def start_def Let_def initialize_def emit_def
        initializations_def)
  from start_idempotent[of s_started ext0 NotFn 5 NotFn 6 "[]" "[]" "[]" Map.empty "Fn 5"] a i
  have "start ext0 NotFn (Fn 5) s_started = emit (Called 5) s_started"
    and "start ext0 NotFn (Fn 6) (start ext0 NotFn (Fn 5) s_started) = emit (Called 6) (emit (Called 5) s_started)"
    and "initializations (start ext0 NotFn (Fn 5) s_started) = initializations s_started"
    by blast+
  with a n show ?thesis by (simp only:)
qed

subsection \<open>C7: stop\<close>

lemma await_below_mono: "await_below n p \<Longrightarrow> n \<le> m \<Longrightarrow> await_below m p"
  by (cases p) auto

lemma await_below_Suc: "await_below n p \<Longrightarrow> await_below (Suc n) p"
  by (cases p) auto

lemma adds_no_object_numbered:
  assumes "adds_no_object s s'" and "objects_numbered s"
  shows "objects_numbered s'"
proof -
  have "await_below (fresh s') p" if "p \<in> set (pending s')" for p
  proof -
    from that assms(1) have "p \<in> set (pending s) \<or> await_below 0 p"
      by (simp add: adds_no_object_def list_all_iff)
    then show ?thesis
    proof
      assume "p \<in> set (pending s)"
      with assms(2) have "await_below (fresh s) p" by (simp add: objects_numbered_def list_all_iff)
      then show ?thesis using assms(1) await_below_mono by (simp add: adds_no_object_def)
    next
      assume "await_below 0 p"
      then show ?thesis using await_below_mono by blast
    qed
  qed
  then show ?thesis using assms by (simp add: adds_no_object_def objects_numbered_def list_all_iff)
qed

lemma adds_no_object_trans:
  "adds_no_object s s' \<Longrightarrow> adds_no_object s' s'' \<Longrightarrow> adds_no_object s s''"
  by (auto simp: adds_no_object_def list_all_iff)

lemma createRequestFilter_adds_no_object: "adds_no_object s (createRequestFilter ext cb s)"
proof (cases "applicationRunning s")
  case True
  show ?thesis unfolding createRequestFilter_running[OF True]
    by (auto simp: adds_no_object_def list_all_iff split: option.splits)
next
  case False
  show ?thesis unfolding createRequestFilter_stopped[OF False]
    by (auto simp: adds_no_object_def list_all_iff emit_def split: callback.splits)
qed

lemma processEventsHistory_adds_no_object: "adds_no_object s (processEventsHistory ext s)"
proof -
  define s2 where "s2 = (taken s)\<lparr>pending := pending s @ save_reads (fresh s) (filterEventsHistory s),
      trace := trace s @ map StorageRead (dirty (filterEventsHistory s))\<rparr>"
  have k2: "adds_no_object s s2"
    by (auto simp: s2_def taken_def adds_no_object_def save_reads_def list_all_iff)
  have "processEventsHistory ext s = createRequestFilter ext NotFn s2 \<or>
        adds_no_object s2 (processEventsHistory ext s)"
    unfolding processEventsHistory_eq Let_def s2_def[symmetric]
    by (auto simp: adds_no_object_def s2_def taken_def list_all_iff)
  then show ?thesis
    using k2 createRequestFilter_adds_no_object[of s2 ext NotFn] adds_no_object_trans by metis
qed

lemma saveWrite_callback_adds_no_object: "adds_no_object s (saveWrite_callback ext b k s)"
proof -
  have "adds_no_object s (dfd_resolve ext b k s)"
    using createRequestFilter_adds_no_object[of "s\<lparr>batches := (batches s)(b := None)\<rparr>" ext NotFn]
    by (auto simp: dfd_resolve_def Let_def adds_no_object_def list_all_iff split: option.splits)
  then show ?thesis
    by (auto simp: saveWrite_callback_def Let_def notifyListeners_def emit_def adds_no_object_def)
qed

lemma start_adds_no_object: "adds_no_object s (start ext opts cb s)"
  using createRequestFilter_adds_no_object[of "s\<lparr>applicationRunning := True\<rparr>" ext cb]
  by (auto simp: start_def Let_def call_def emit_def initialize_def adds_no_object_def list_all_iff
      split: callback.splits)

lemma remove1_numbered:
  "objects_numbered s \<Longrightarrow> objects_numbered (s\<lparr>pending := remove1 p (pending s)\<rparr>)"
  by (auto simp: objects_numbered_def list_all_iff dest: notin_set_remove1)

lemma complete_await_numbered:
  assumes "objects_numbered s1" and "i < fresh s1"
  shows "objects_numbered (requestFilterInitialized ext r i l s1)"
proof (cases "rebuilds s1 r")
  case None
  then show ?thesis using assms by (simp add: requestFilterInitialized_def)
next
  case (Some t)
  show ?thesis
    unfolding requestFilterInitialized_eq[OF Some] Let_def
    using assms by (simp add: objects_numbered_def)
qed

lemma stop_objects_numbered: "objects_numbered s \<Longrightarrow> objects_numbered (stop s)"
  by (simp add: stop_def new_RequestFilter_def notifyListeners_def emit_def Let_def
        objects_numbered_def list_all_iff await_below_Suc)

lemma listeners_adds_no_object: "adds_no_object s (listeners ev arg rls s)"
  by (auto simp: listeners_def processFilterEvent_def processGroupEvent_def Let_def
        adds_no_object_def list_all_iff)

lemma saveRead_callback_adds_no_object:
  "adds_no_object s (saveRead_callback ext b k evs res s)"
  by (auto simp: saveRead_callback_def emit_def enqueue_def
          adds_no_object_def list_all_iff Let_def split: sum.splits option.splits prod.splits)

lemma loadFilterRulesFromStorage_callback_numbered:
  assumes "objects_numbered s"
  shows "objects_numbered (loadFilterRulesFromStorage_callback ext r f res s)"
proof (cases "rebuilds s r")
  case None
  then show ?thesis using assms
    by (simp add: loadFilterRulesFromStorage_callback_def)
next
  case (Some t)
  show ?thesis
  proof (cases "promises t = 1 \<and> awaited t")
    case True
    then show ?thesis
      using callback_last[OF Some, of ext f res] assms
      by (simp add: objects_numbered_def list_all_iff await_below_Suc)
  next
    case False
    then show ?thesis
      using callback_not_last[OF Some False, of ext f res] assms
      by (simp add: objects_numbered_def)
  qed
qed

lemma complete_objects_numbered:
  assumes "objects_numbered s" and "p \<in> set (pending s)"
  shows "objects_numbered (complete ext p (s\<lparr>pending := remove1 p (pending s)\<rparr>))"
proof -
  define s1 where "s1 = s\<lparr>pending := remove1 p (pending s)\<rparr>"
  have n1: "objects_numbered s1" unfolding s1_def by (rule remove1_numbered[OF assms(1)])
  have "objects_numbered (complete ext p s1)"
  proof (cases p)
    case (SaveRead b k evs)
    have "adds_no_object s1 (complete ext p s1)"
      unfolding SaveRead complete_def pending_op.case by (rule saveRead_callback_adds_no_object)
    then show ?thesis using n1 by (rule adds_no_object_numbered)
  next
    case (SaveWrite b k c)
    have "adds_no_object s1 (s1\<lparr>rulesStorage := (rulesStorage s1)(slot k \<mapsto> c)\<rparr>)"
      by (simp add: adds_no_object_def list_all_iff)
    then have "adds_no_object s1 (complete ext p s1)"
      unfolding SaveWrite complete_def pending_op.case
      by (rule adds_no_object_trans) (rule saveWrite_callback_adds_no_object)
    then show ?thesis using n1 by (rule adds_no_object_numbered)
  next
    case (AwaitStartEngine r i l)
    from assms have "i < fresh s"
      by (auto simp: AwaitStartEngine objects_numbered_def list_all_iff)
    then have "i < fresh s1" by (simp add: s1_def)
    from complete_await_numbered[OF n1 this, of ext r l] show ?thesis
      unfolding AwaitStartEngine complete_def pending_op.case .
  next
    case (LoadRead r f)
    show ?thesis unfolding LoadRead complete_def pending_op.case
      by (rule loadFilterRulesFromStorage_callback_numbered[OF n1])
  qed
  then show ?thesis unfolding s1_def .
qed

lemma fail_objects_numbered:
  assumes "objects_numbered s"
  shows "objects_numbered (fail ext p (s\<lparr>pending := remove1 p (pending s)\<rparr>))"
proof -
  define s1 where "s1 = s\<lparr>pending := remove1 p (pending s)\<rparr>"
  have n1: "objects_numbered s1" unfolding s1_def by (rule remove1_numbered[OF assms])
  have "objects_numbered (fail ext p s1)"
  proof (cases p)
    case (SaveRead b k evs)
    have "adds_no_object s1 (fail ext p s1)"
      unfolding SaveRead fail_def pending_op.case by (rule saveRead_callback_adds_no_object)
    then show ?thesis using n1 by (rule adds_no_object_numbered)
  next
    case (SaveWrite b k c)
    have "adds_no_object s1 (fail ext p s1)"
      unfolding SaveWrite fail_def pending_op.case by (rule saveWrite_callback_adds_no_object)
    then show ?thesis using n1 by (rule adds_no_object_numbered)
  next
    case (AwaitStartEngine r i l)
    show ?thesis using n1 by (simp add: AwaitStartEngine fail_def emit_def objects_numbered_def)
  next
    case (LoadRead r f)
    show ?thesis unfolding LoadRead fail_def pending_op.case
      by (rule loadFilterRulesFromStorage_callback_numbered[OF n1])
  qed
  then show ?thesis unfolding s1_def .
qed

lemma step_objects_numbered:
  assumes "objects_numbered s"
  shows "objects_numbered (step ext a s)"
proof (cases a)
  case (Start opts cb)
  show ?thesis unfolding Start step.simps
    by (rule adds_no_object_numbered[OF start_adds_no_object assms])
next
  case Stop
  show ?thesis unfolding Stop step.simps by (rule stop_objects_numbered[OF assms])
next
  case (Rebuild cb)
  show ?thesis unfolding Rebuild step.simps
    by (rule adds_no_object_numbered[OF createRequestFilter_adds_no_object assms])
next
  case (Notification ev arg rls)
  show ?thesis unfolding Notification step.simps
    by (rule adds_no_object_numbered[OF listeners_adds_no_object assms])
next
  case TimerFired
  show ?thesis
  proof (cases "onFilterChangeTimeout s = None")
    case True
    then show ?thesis using assms by (simp only: TimerFired step.simps simp_thms if_True)
  next
    case False
    then show ?thesis
      using adds_no_object_numbered[OF processEventsHistory_adds_no_object assms, of ext]
      by (simp only: TimerFired step.simps if_False)
  qed
next
  case (Tick t)
  show ?thesis unfolding Tick step.simps using assms by (simp add: objects_numbered_def)
next
  case (Fail p)
  show ?thesis
  proof (cases "p \<in> set (pending s)")
    case True
    then show ?thesis using fail_objects_numbered[OF assms, of ext p]
      by (simp only: Fail step.simps if_True)
  next
    case False
    then show ?thesis using assms by (simp only: Fail step.simps if_False)
  qed
next
  case (Complete p)
  show ?thesis
  proof (cases "p \<in> set (pending s)")
    case True
    then show ?thesis using complete_objects_numbered[OF assms True, of ext]
      by (simp only: Complete step.simps if_True)
  next
    case False
    then show ?thesis using assms by (simp only: Complete step.simps if_False)
  qed
next
  case (CallerArray a ls)
  show ?thesis unfolding CallerArray step.simps using assms by (simp add: objects_numbered_def)
next
  case (RegistryChanged fs gs)
  show ?thesis unfolding RegistryChanged step.simps using assms
    by (simp add: objects_numbered_def)
qed

lemma run_objects_numbered: "objects_numbered s \<Longrightarrow> objects_numbered (run ext acts s)"
  unfolding run_def
proof (induction acts arbitrary: s)
  case Nil
  then show ?case by simp
next
  case (Cons a acts)
  from Cons.IH[OF step_objects_numbered[OF Cons.prems, of ext a]] show ?case by simp
qed

lemma init_objects_numbered: "objects_numbered (init_state fs gs store)"
  by (simp add: objects_numbered_def init_state_def)

text \<open>
  \<^bold>\<open>C7.\<close> In every state the module can be in (the module as loaded, over any registry
  and store, after any sequence of actions), \<^verbatim>\<open>stop\<close> clears the running flag,
  replaces the request filter by a newly made one, whose rule count is 0 and which is
  not the previous object (its number is above the previous one's), and announces
  \<^verbatim>\<open>REQUEST_FILTER_UPDATED\<close> with that count.
\<close>

theorem stop_fail_closed:
  assumes "s = run ext acts (init_state fs gs store)"
  shows "\<not> applicationRunning (stop s)
   \<and> getRulesCount (getRequestFilter (stop s)) = 0
   \<and> getRequestFilter (stop s) \<noteq> getRequestFilter s
   \<and> rf_id (getRequestFilter s) < rf_id (getRequestFilter (stop s))
   \<and> trace (stop s) = trace s @ [Notify REQUEST_FILTER_UPDATED (Some 0)]"
proof -
  have a: "rf_id (getRequestFilter (stop s)) = fresh s"
    by (simp add: stop_def new_RequestFilter_def notifyListeners_def emit_def Let_def
        getRequestFilter_def)
  have "objects_numbered s"
    unfolding assms by (rule run_objects_numbered[OF init_objects_numbered])
  then have b: "rf_id (getRequestFilter s) < fresh s"
    by (simp add: objects_numbered_def getRequestFilter_def)
  have c: "getRequestFilter (stop s) \<noteq> getRequestFilter s"
  proof
    assume e: "getRequestFilter (stop s) = getRequestFilter s"
    from a have "rf_id (getRequestFilter s) = fresh s" unfolding e .
    with b show False by simp
  qed
  have d: "\<not> applicationRunning (stop s)"
    by (simp add: stop_def new_RequestFilter_def notifyListeners_def emit_def Let_def)
  have f: "getRulesCount (getRequestFilter (stop s)) = 0"
    by (simp add: stop_def new_RequestFilter_def notifyListeners_def emit_def Let_def
        getRequestFilter_def)
  have g: "trace (stop s) = trace s @ [Notify REQUEST_FILTER_UPDATED (Some 0)]"
    by (simp add: stop_def new_RequestFilter_def notifyListeners_def emit_def Let_def
        getRequestFilter_def getRequestFilterInfo_def)
  from b have h: "rf_id (getRequestFilter s) < rf_id (getRequestFilter (stop s))"
    unfolding a .
  show ?thesis by (intro conjI) (fact d, fact f, fact c, fact h, fact g)
qed

theorem stop_fail_closed_witness:
  "\<not> applicationRunning (stop (run ext0 [Start NotFn (Fn 0)] s0))
   \<and> getRulesCount (getRequestFilter (stop (run ext0 [Start NotFn (Fn 0)] s0))) = 0
   \<and> getRequestFilter (stop (run ext0 [Start NotFn (Fn 0)] s0)) \<noteq>
       getRequestFilter (run ext0 [Start NotFn (Fn 0)] s0)
   \<and> rf_id (getRequestFilter (run ext0 [Start NotFn (Fn 0)] s0)) <
       rf_id (getRequestFilter (stop (run ext0 [Start NotFn (Fn 0)] s0)))
   \<and> trace (stop (run ext0 [Start NotFn (Fn 0)] s0)) =
       trace (run ext0 [Start NotFn (Fn 0)] s0) @ [Notify REQUEST_FILTER_UPDATED (Some 0)]"
  unfolding s0_def
  by (rule stop_fail_closed[OF refl])

subsection \<open>C8: what a rebuild reads\<close>

text \<open>
  \<^bold>\<open>C8.\<close> A rebuild request on a running application (over a registry in which every
  enabled filter has its group) reads exactly the filters with
  \<^verbatim>\<open>filter.enabled && group.enabled\<close>, in registry order, and then the user filter.
  Whatever the order in which these reads complete and whatever they deliver, nothing
  is added to the trace or to the pending operations before the last one has completed,
  the engine is started exactly then, and every list it is started with belongs to a
  filter that was read: a filter that is disabled or whose group is disabled gives no
  list.
\<close>

theorem rebuild_load_scope:
  assumes "applicationRunning s" and "groups_known s"
    and "mset (map fst (pre @ [final])) = mset (loaded_filters ext s)"
  shows
    "trace (createRequestFilter ext cb s) = trace s @ map StorageRead (loaded_filters ext s)
     \<and> pending (createRequestFilter ext cb s) = pending s @ map (LoadRead (fresh s)) (loaded_filters ext s)
     \<and> set (loaded_filters ext s) =
          filterId ` {f \<in> set (filters s). participates s f} \<union> {USER_FILTER_ID ext}
     \<and> trace (deliver ext (fresh s) pre (createRequestFilter ext cb s)) =
          trace (createRequestFilter ext cb s)
     \<and> pending (deliver ext (fresh s) pre (createRequestFilter ext cb s)) =
          pending (createRequestFilter ext cb s)
     \<and> trace (deliver ext (fresh s) (pre @ [final]) (createRequestFilter ext cb s)) =
          trace (createRequestFilter ext cb s) @ init_notice s @
            [StartEngine (ruleLists ext (collect (pre @ [final]) []))]
     \<and> set (map list_id (ruleLists ext (collect (pre @ [final]) []))) \<subseteq> set (loaded_filters ext s)"
proof -
  let ?r = "fresh s"
  let ?t0 = "\<lparr>rb_callback = cb, rulesFilterMap = [],
               promises = length (loaded_filters ext s), awaited = True\<rparr>"
  define u where "u = createRequestFilter ext cb s"
  have u: "u = s\<lparr>fresh := Suc (fresh s),
            rebuilds := (rebuilds s)(?r \<mapsto> ?t0),
            pending := pending s @ map (LoadRead ?r) (loaded_filters ext s),
            trace := trace s @ map StorageRead (loaded_filters ext s)\<rparr>"
    unfolding u_def by (rule createRequestFilter_known[OF assms(1,2)])
  have rb: "rebuilds u ?r = Some ?t0" by (simp add: u)
  from assms(3) have "size (mset (map fst (pre @ [final]))) = size (mset (loaded_filters ext s))"
    by simp
  then have len: "length (loaded_filters ext s) = Suc (length pre)" by simp
  from assms(3) have "set_mset (mset (map fst (pre @ [final]))) = set_mset (mset (loaded_filters ext s))"
    by simp
  then have keys: "set (map fst (pre @ [final])) = set (loaded_filters ext s)" by simp
  define t1 where "t1 = ?t0\<lparr>rulesFilterMap := collect pre [], promises := 1\<rparr>"
  define u1 where "u1 = u\<lparr>rebuilds := (rebuilds u)(?r \<mapsto> t1)\<rparr>"
  have d1: "deliver ext ?r pre u = u1"
    using deliver_not_last[OF rb, of pre ext] len by (simp add: u1_def t1_def)
  have rb1: "rebuilds u1 ?r = Some t1" by (simp add: u1_def)
  obtain f res where final: "final = (f, res)" by (cases final)
  have d2: "deliver ext ?r (pre @ [final]) u = loadFilterRulesFromStorage_callback ext ?r f res u1"
    using d1 by (simp add: deliver_def final)
  have c: "collect [(f, res)] (collect pre []) = collect (pre @ [final]) []"
    by (simp add: collect_def final)
  have d3: "trace (deliver ext ?r (pre @ [final]) u) =
      trace u @ init_notice s @ [StartEngine (ruleLists ext (collect (pre @ [final]) []))]"
    unfolding d2 callback_last[OF rb1, of ext f res, simplified t1_def, simplified]
    by (simp add: t1_def c u1_def u init_notice_def)
  have sub: "set (map list_id (ruleLists ext (collect (pre @ [final]) []))) \<subseteq> set (loaded_filters ext s)"
    unfolding ruleLists_ids using keys_collect[of "pre @ [final]" "[]"] keys by simp
  have l: "set (loaded_filters ext s) =
          filterId ` {f \<in> set (filters s). participates s f} \<union> {USER_FILTER_ID ext}"
    by (auto simp: loaded_filters_def)
  show ?thesis
    using d1 d3 sub l unfolding u_def[symmetric]
    by (simp add: u u1_def)
qed

theorem rebuild_load_scope_witness:
  "applicationRunning s_running \<and> groups_known s_running
   \<and> mset (map fst ([(0, None)] @ [(1, Some [''a.com##.ad'', ''b.com##.ad''])])) =
       mset (loaded_filters ext0 s_running)
   \<and> trace (createRequestFilter ext0 NotFn s_running) =
       [GetRunInfo NotFn NotFn, StorageRead 1, StorageRead 0]
   \<and> pending (createRequestFilter ext0 NotFn s_running) = [LoadRead 1 1, LoadRead 1 0]
   \<and> trace (deliver ext0 1 [(0, None)] (createRequestFilter ext0 NotFn s_running)) =
       [GetRunInfo NotFn NotFn, StorageRead 1, StorageRead 0]
   \<and> trace (deliver ext0 1 ([(0, None)] @ [(1, Some [''a.com##.ad'', ''b.com##.ad''])])
         (createRequestFilter ext0 NotFn s_running)) =
       [GetRunInfo NotFn NotFn, StorageRead 1, StorageRead 0, Notify APPLICATION_INITIALIZED None,
        StartEngine [StringRuleList 1 (''a.com##.ad'' @ newline # ''b.com##.ad'') False False]]"
proof -
  note f = s_running_facts
  have m: "mset (map fst ([(0, None)] @ [(1, Some [''a.com##.ad'', ''b.com##.ad''])])) =
       mset (loaded_filters ext0 s_running)"
    by (simp add: f)
  have c: "ruleLists ext0 (collect ([(0, None)] @ [(1, Some [''a.com##.ad'', ''b.com##.ad''])]) []) =
       [StringRuleList 1 (''a.com##.ad'' @ newline # ''b.com##.ad'') False False]"
    by (simp add: collect_def ruleLists_def obj_keys_def ext0_def)
  have i: "init_notice s_running = [Notify APPLICATION_INITIALIZED None]"
    by (simp add: init_notice_def f)
  from rebuild_load_scope[OF f(1) f(2) m, of NotFn]
  show ?thesis unfolding c i f by (simp add: f)
qed

subsection \<open>C9: a rebuild that fails\<close>






lemma keeps_refl: "keeps r s s"
  by (simp add: keeps_def)



























subsection \<open>C10: rebuild requests while stopped\<close>

lemma processEventsHistory_stopped:
  assumes "\<not> applicationRunning s"
  shows "no_rebuild s (processEventsHistory ext s)"
  using assms
  by (simp add: processEventsHistory_def Let_def fold_processSave createRequestFilter_stopped
      notifyListeners_def emit_def no_rebuild_def filter_map_none)

lemma listeners_no_rebuild: "no_rebuild s (listeners ev arg rls s)"
  by (simp add: listeners_def processFilterEvent_def processGroupEvent_def no_rebuild_def Let_def)

lemma saveRead_callback_no_rebuild: "no_rebuild s (saveRead_callback ext b k evs l s)"
  by (simp add: saveRead_callback_def emit_def enqueue_def no_rebuild_def Let_def
      split: sum.splits option.splits prod.splits)

lemma saveWrite_callback_stopped:
  assumes "\<not> applicationRunning s"
  shows "no_rebuild s (saveWrite_callback ext b k s)"
  using assms
  by (simp add: saveWrite_callback_def dfd_resolve_def createRequestFilter_stopped Let_def
      notifyListeners_def emit_def no_rebuild_def split: option.splits)

lemma step_stopped:
  assumes "\<not> applicationRunning s" and "late_trigger a"
  shows "no_rebuild s (step ext a s)"
proof (cases a)
  case (Rebuild cb)
  then show ?thesis using assms(1)
    by (simp add: createRequestFilter_stopped no_rebuild_def emit_def split: callback.splits)
next
  case (Notification ev arg rls)
  then show ?thesis by (simp add: listeners_no_rebuild)
next
  case TimerFired
  then show ?thesis using processEventsHistory_stopped[OF assms(1)] by (simp add: no_rebuild_def)
next
  case (Complete p)
  show ?thesis
  proof (cases p)
    case (SaveRead b k evs)
    then show ?thesis
      using Complete saveRead_callback_no_rebuild[of "s\<lparr>pending := remove1 p (pending s)\<rparr>" ext b k evs
          "rulesStorage s (slot k)"]
      by (simp add: complete_def no_rebuild_def filter_remove1_other)
  next
    case (SaveWrite b k c)
    then show ?thesis
      using Complete assms(1)
        saveWrite_callback_stopped[of "s\<lparr>pending := remove1 p (pending s),
           rulesStorage := (rulesStorage s)(slot k \<mapsto> c)\<rparr>" ext b k]
      by (simp add: complete_def no_rebuild_def filter_remove1_other)
  qed (use Complete assms(2) in simp_all)
next
  case (Tick t)
  then show ?thesis by (simp add: no_rebuild_def)
qed (use assms(2) in simp_all)

lemma run_stopped:
  "\<not> applicationRunning s \<Longrightarrow> list_all late_trigger acts \<Longrightarrow> no_rebuild s (run ext acts s)"
proof (induction acts arbitrary: s)
  case Nil
  then show ?case by (simp add: run_def no_rebuild_def)
next
  case (Cons a acts)
  from Cons.prems have st: "no_rebuild s (step ext a s)" by (simp add: step_stopped)
  then have "\<not> applicationRunning (step ext a s)" using Cons.prems(1) by (simp add: no_rebuild_def)
  from Cons.IH[OF this] Cons.prems(2) have "no_rebuild (step ext a s) (run ext acts (step ext a s))"
    by simp
  with st show ?case by (simp add: run_def no_rebuild_def)
qed

text \<open>
  \<^bold>\<open>C10.\<close> While the application is not running, \<^verbatim>\<open>createRequestFilter\<close> calls its
  callback if it is a function and changes nothing else. Hence any sequence of triggers
  arriving in the stopped state (rebuild requests, notifications, the debounce timer,
  the completions of a batch's reads and writes with the rebuild request queued behind
  them, clock ticks) leaves the request filter, the running flag and the registered
  rebuilds as they are, adds no pending rebuild operation and starts no engine; after
  \<^verbatim>\<open>stop\<close> the request filter is still the empty one \<^verbatim>\<open>stop\<close> installed.
\<close>

theorem stopped_rebuild_guard:
  assumes "\<not> applicationRunning s"
  shows "createRequestFilter ext callback s = (case callback of Fn n \<Rightarrow> emit (Called n) s | NotFn \<Rightarrow> s)
     \<and> (list_all late_trigger acts \<longrightarrow> no_rebuild s (run ext acts s))
     \<and> (list_all late_trigger acts \<longrightarrow>
          getRequestFilter (run ext acts (stop s)) = getRequestFilter (stop s)
          \<and> getRulesCount (getRequestFilter (run ext acts (stop s))) = 0)"
proof -
  have "\<not> applicationRunning (stop s)"
    by (simp add: stop_def new_RequestFilter_def notifyListeners_def emit_def Let_def)
  from run_stopped[OF this] have
    "list_all late_trigger acts \<Longrightarrow> requestFilter (run ext acts (stop s)) = requestFilter (stop s)"
    by (simp add: no_rebuild_def)
  moreover have "getRulesCount (requestFilter (stop s)) = 0"
    by (simp add: stop_def new_RequestFilter_def notifyListeners_def emit_def Let_def)
  ultimately show ?thesis
    using createRequestFilter_stopped[OF assms] run_stopped[OF assms]
    by (simp add: getRequestFilter_def)
qed

theorem stopped_rebuild_guard_witness:
  "\<not> applicationRunning s0 \<and> list_all late_trigger late_acts
   \<and> createRequestFilter ext0 (Fn 3) s0 = emit (Called 3) s0
   \<and> no_rebuild s0 (run ext0 late_acts s0)
   \<and> getRulesCount (getRequestFilter (run ext0 late_acts (stop s0))) = 0"
proof -
  have a: "\<not> applicationRunning s0" by (simp add: s0_def init_state_def)
  have b: "list_all late_trigger late_acts" by (simp add: late_acts_def)
  from stopped_rebuild_guard[OF a, of ext0 "Fn 3" late_acts] b
  have "createRequestFilter ext0 (Fn 3) s0 = (case Fn 3 of Fn n \<Rightarrow> emit (Called n) s0 | NotFn \<Rightarrow> s0)"
    and "no_rebuild s0 (run ext0 late_acts s0)"
    and "getRulesCount (getRequestFilter (run ext0 late_acts (stop s0))) = 0"
    by blast+
  with a b show ?thesis by simp
qed

end
